theory Spec2Isabelle
  imports Main "HOL-Library.AList"
begin

section \<open>Content detectors: the two regular expressions of lazy-loader.js\<close>

text \<open>
  \<^verbatim>\<open>hasMermaidContent\<close> and \<^verbatim>\<open>hasKaTeXContent\<close> apply \<^verbatim>\<open>RegExp.prototype.test\<close> to a
  regular expression literal. The literals are transcribed into a small regular
  expression datatype; \<^verbatim>\<open>test\<close> is an unanchored search, decided here with Brzozowski
  derivatives. A JavaScript string is a sequence of UTF-16 code units and a \<open>string\<close> of
  HOL is a sequence of bytes; both expressions only tell ASCII characters apart
  (the backtick, the dollar sign, the line feed and the letters of \<^verbatim>\<open>mermaid\<close>), and every
  other character is at least one unit in either encoding, so the answer is the same on
  the UTF-8 bytes of the text.
\<close>

datatype regex =
    Nul
  | Eps
  | Atom "char \<Rightarrow> bool"
  | Seq regex regex
  | Alt regex regex
  | Star regex

fun nullable :: "regex \<Rightarrow> bool" where
  "nullable Nul = False"
| "nullable Eps = True"
| "nullable (Atom P) = False"
| "nullable (Seq r s) = (nullable r \<and> nullable s)"
| "nullable (Alt r s) = (nullable r \<or> nullable s)"
| "nullable (Star r) = True"

fun deriv :: "char \<Rightarrow> regex \<Rightarrow> regex" where
  "deriv c Nul = Nul"
| "deriv c Eps = Nul"
| "deriv c (Atom P) = (if P c then Eps else Nul)"
| "deriv c (Seq r s) =
     (if nullable r then Alt (Seq (deriv c r) s) (deriv c s) else Seq (deriv c r) s)"
| "deriv c (Alt r s) = Alt (deriv c r) (deriv c s)"
| "deriv c (Star r) = Seq (deriv c r) (Star r)"

text \<open>\<open>match_prefix r s\<close>: some prefix of \<open>s\<close> is a word of \<open>r\<close>.\<close>

fun match_prefix :: "regex \<Rightarrow> string \<Rightarrow> bool" where
  "match_prefix r [] = nullable r"
| "match_prefix r (c # cs) = (nullable r \<or> match_prefix (deriv c r) cs)"

text \<open>
  \<^verbatim>\<open>re.test(s)\<close> on a freshly evaluated literal (\<^verbatim>\<open>lastIndex\<close> is 0, also under the
  \<^verbatim>\<open>g\<close> flag): a match may start at any position. Whether a quantifier is lazy
  (\<^verbatim>\<open>*?\<close>) or greedy does not change whether a match exists.
\<close>

fun regex_test :: "regex \<Rightarrow> string \<Rightarrow> bool" where
  "regex_test r [] = match_prefix r []"
| "regex_test r (c # cs) = (match_prefix r (c # cs) \<or> regex_test r cs)"

text \<open>
  The \<^verbatim>\<open>i\<close> flag without the \<^verbatim>\<open>u\<close> flag compares characters after mapping them to
  upper case, and never maps a character outside ASCII onto an ASCII one.
\<close>

definition canonicalize :: "char \<Rightarrow> char" where
  "canonicalize c =
     (case map_of (zip ''abcdefghijklmnopqrstuvwxyz'' ''ABCDEFGHIJKLMNOPQRSTUVWXYZ'') c of
        Some u \<Rightarrow> u
      | None \<Rightarrow> c)"

definition lit :: "char \<Rightarrow> regex" where
  "lit x = Atom (\<lambda>c. c = x)"

definition lit_i :: "char \<Rightarrow> regex" where
  "lit_i x = Atom (\<lambda>c. canonicalize c = canonicalize x)"

text \<open>\<^verbatim>\<open>[\s\S]\<close>: a class united with its complement, every character.\<close>

definition any_char :: regex where
  "any_char = Atom (\<lambda>c. True)"

definition Plus :: "regex \<Rightarrow> regex" where
  "Plus r = Seq r (Star r)"

fun seq_of :: "(char \<Rightarrow> regex) \<Rightarrow> string \<Rightarrow> regex" where
  "seq_of f [] = Eps"
| "seq_of f (c # cs) = Seq (f c) (seq_of f cs)"

text \<open>\<^verbatim>\<open>/```mermaid[\s\S]*?```/i\<close>\<close>

definition mermaid_re :: regex where
  "mermaid_re =
     Seq (seq_of lit_i ''```mermaid'') (Seq (Star any_char) (seq_of lit_i ''```''))"

definition hasMermaidContent :: "string \<Rightarrow> bool" where
  "hasMermaidContent markdown = regex_test mermaid_re markdown"

text \<open>\<^verbatim>\<open>/\$\$[\s\S]*?\$\$|\$[^$\n]+\$/g\<close>\<close>

definition katex_re :: regex where
  "katex_re =
     Alt (Seq (seq_of lit ''$$'') (Seq (Star any_char) (seq_of lit ''$$'')))
         (Seq (lit CHR ''$'')
            (Seq (Plus (Atom (\<lambda>c. c \<noteq> CHR ''$'' \<and> c \<noteq> CHR 0x0A))) (lit CHR ''$'')))"

definition hasKaTeXContent :: "string \<Rightarrow> bool" where
  "hasKaTeXContent markdown = regex_test katex_re markdown"

text \<open>
  The words of a regular expression, as a relation, to state what the search finds.
\<close>

inductive matches :: "regex \<Rightarrow> string \<Rightarrow> bool" where
  m_eps: "matches Eps []"
| m_atom: "P c \<Longrightarrow> matches (Atom P) [c]"
| m_seq: "matches r u \<Longrightarrow> matches s v \<Longrightarrow> matches (Seq r s) (u @ v)"
| m_altl: "matches r u \<Longrightarrow> matches (Alt r s) u"
| m_altr: "matches s u \<Longrightarrow> matches (Alt r s) u"
| m_star_nil: "matches (Star r) []"
| m_star_step: "matches r u \<Longrightarrow> matches (Star r) v \<Longrightarrow> matches (Star r) (u @ v)"


section \<open>The lazy loader: module state, promises and callers\<close>

text \<open>
  A module namespace object, a rejection reason and a promise are references; the
  argument \<^verbatim>\<open>importFn\<close> of \<^verbatim>\<open>lazyLoad\<close> is always a thunk \<^verbatim>\<open>() => import(spec)\<close> and is
  represented by the specifier it imports.
\<close>

type_synonym jsmodule = nat
type_synonym reason = nat
type_synonym promise = nat
type_synonym importFn = string

datatype settlement = Pending | Fulfilled jsmodule | Rejected reason

text \<open>
  What the promise of the \<^verbatim>\<open>async function lazyLoad\<close> is resolved with: the cached
  module itself (the promise is fulfilled when the call returns), or another promise,
  whose outcome it adopts.
\<close>

datatype resolution = Value jsmodule | Follows promise

datatype loader = Mermaid | KaTeX | Html2Pdf | Docx

text \<open>
  The two module-level maps \<^verbatim>\<open>moduleCache\<close> and \<^verbatim>\<open>loadingPromises\<close> are JavaScript
  \<^verbatim>\<open>Map\<close>s, which keep their keys in insertion order: association lists, with
  \<^verbatim>\<open>has\<close>/\<^verbatim>\<open>get\<close> as \<^const>\<open>map_of\<close>, \<^verbatim>\<open>set\<close> as \<^const>\<open>AList.update\<close> (in place for a
  key that is present, at the end otherwise), \<^verbatim>\<open>delete\<close> as \<^const>\<open>AList.delete\<close> and
  \<^verbatim>\<open>keys\<close> as \<open>map fst\<close>.

  \<open>promises\<close> is the store of the promises \<^verbatim>\<open>loadPromise\<close> built at line 27, each with
  the \<^verbatim>\<open>moduleName\<close> its two callbacks close over; a promise is its index. The chain
  \<^verbatim>\<open>importFn().then(..).catch(..)\<close> is one entry: it is settled by the step that runs
  the callback.

  \<open>requests\<close>, \<open>importCalls\<close>, \<open>cacheSets\<close>, \<open>consoleErrors\<close> and \<open>initializeCalls\<close> are
  logs: every call of \<^verbatim>\<open>lazyLoad\<close> with what it returned, every call of \<^verbatim>\<open>importFn\<close>,
  of \<^verbatim>\<open>moduleCache.set\<close>, of \<^verbatim>\<open>console.error\<close> and of \<^verbatim>\<open>mermaid.default.initialize\<close>, the
  last with whether the call threw.

  \<open>suspended\<close> holds the calls of the exported loaders that wait at
  \<^verbatim>\<open>await lazyLoad(..)\<close>; \<open>mermaidInitialized\<close> the modules whose default export carries
  \<^verbatim>\<open>isInitialized = true\<close>; \<open>katexLink\<close> says whether the document has a
  \<^verbatim>\<open>link[href*="katex"]\<close>; \<open>hasRequestIdleCallback\<close> is
  \<^verbatim>\<open>'requestIdleCallback' in window\<close>, and \<open>idleCallbacks\<close> the callbacks registered
  with it and not yet run, each with its \<^verbatim>\<open>timeout\<close> option and the \<^verbatim>\<open>modules\<close> it
  closes over.
\<close>

record state =
  moduleCache :: "(string \<times> jsmodule) list"
  loadingPromises :: "(string \<times> promise) list"
  promises :: "(string \<times> settlement) list"
  requests :: "(string \<times> resolution) list"
  importCalls :: "(string \<times> importFn) list"
  cacheSets :: "(string \<times> jsmodule) list"
  consoleErrors :: "(string \<times> reason) list"
  suspended :: "(loader \<times> resolution) list"
  mermaidInitialized :: "jsmodule list"
  initializeCalls :: "(jsmodule \<times> bool) list"
  katexLink :: bool
  hasRequestIdleCallback :: bool
  idleCallbacks :: "(nat \<times> string list) list"

text \<open>
  The state when the module has been evaluated: both maps are \<^verbatim>\<open>new Map()\<close>. The
  runtime decides whether \<^verbatim>\<open>requestIdleCallback\<close> exists and whether the page already
  links a KaTeX stylesheet.
\<close>

definition initial :: "bool \<Rightarrow> bool \<Rightarrow> state" where
  "initial idle link =
     \<lparr>moduleCache = [], loadingPromises = [], promises = [], requests = [],
      importCalls = [], cacheSets = [], consoleErrors = [], suspended = [],
      mermaidInitialized = [], initializeCalls = [], katexLink = link,
      hasRequestIdleCallback = idle, idleCallbacks = []\<rparr>"

subsection \<open>lazyLoad (lines 15--39)\<close>

text \<open>
  The body runs to its \<^verbatim>\<open>return\<close> without an \<^verbatim>\<open>await\<close>, so a call is one step. In the
  third branch \<^verbatim>\<open>importFn()\<close> is called, the promise chain is built and stored under
  \<^verbatim>\<open>moduleName\<close>.
\<close>

definition lazyLoad :: "string \<Rightarrow> importFn \<Rightarrow> state \<Rightarrow> resolution \<times> state" where
  "lazyLoad moduleName importFn s =
     (case map_of (moduleCache s) moduleName of
        Some m \<Rightarrow> (Value m, s\<lparr>requests := requests s @ [(moduleName, Value m)]\<rparr>)
      | None \<Rightarrow>
          (case map_of (loadingPromises s) moduleName of
             Some p \<Rightarrow> (Follows p, s\<lparr>requests := requests s @ [(moduleName, Follows p)]\<rparr>)
           | None \<Rightarrow>
               (let loadPromise = length (promises s) in
                (Follows loadPromise,
                 s\<lparr>importCalls := importCalls s @ [(moduleName, importFn)],
                   promises := promises s @ [(moduleName, Pending)],
                   loadingPromises := AList.update moduleName loadPromise (loadingPromises s),
                   requests := requests s @ [(moduleName, Follows loadPromise)]\<rparr>))))"

text \<open>
  The \<^verbatim>\<open>.then\<close> callback (lines 27--31) of the load behind promise \<open>p\<close>, run with the
  imported module; \<^verbatim>\<open>loadPromise\<close> is fulfilled with what it returns.
\<close>

definition onFulfilled :: "promise \<Rightarrow> jsmodule \<Rightarrow> state \<Rightarrow> state" where
  "onFulfilled p m s =
     (let moduleName = fst (promises s ! p) in
      s\<lparr>moduleCache := AList.update moduleName m (moduleCache s),
        cacheSets := cacheSets s @ [(moduleName, m)],
        loadingPromises := AList.delete moduleName (loadingPromises s),
        promises := (promises s)[p := (moduleName, Fulfilled m)]\<rparr>)"

text \<open>
  The \<^verbatim>\<open>.catch\<close> callback (lines 31--35), run with the reason of the failed import; it
  throws the reason again, so \<^verbatim>\<open>loadPromise\<close> is rejected with it.
\<close>

definition onRejected :: "promise \<Rightarrow> reason \<Rightarrow> state \<Rightarrow> state" where
  "onRejected p e s =
     (let moduleName = fst (promises s ! p) in
      s\<lparr>loadingPromises := AList.delete moduleName (loadingPromises s),
        consoleErrors := consoleErrors s @ [(moduleName, e)],
        promises := (promises s)[p := (moduleName, Rejected e)]\<rparr>)"

subsection \<open>The exported loaders (lines 44--98)\<close>

fun moduleName :: "loader \<Rightarrow> string" where
  "moduleName Mermaid = ''mermaid''"
| "moduleName KaTeX = ''katex''"
| "moduleName Html2Pdf = ''html2pdf''"
| "moduleName Docx = ''docx''"

fun importOf :: "loader \<Rightarrow> importFn" where
  "importOf Mermaid = ''mermaid''"
| "importOf KaTeX = ''katex''"
| "importOf Html2Pdf = ''html2pdf.js''"
| "importOf Docx = ''docx''"

text \<open>
  A call of a loader runs up to its \<^verbatim>\<open>await lazyLoad(..)\<close> and is suspended there.
\<close>

definition callLoader :: "loader \<Rightarrow> state \<Rightarrow> state" where
  "callLoader ld s =
     (case lazyLoad (moduleName ld) (importOf ld) s of
        (r, s') \<Rightarrow> s'\<lparr>suspended := suspended s' @ [(ld, r)]\<rparr>)"

definition loadMermaid :: "state \<Rightarrow> state" where
  "loadMermaid = callLoader Mermaid"

definition loadKaTeX :: "state \<Rightarrow> state" where
  "loadKaTeX = callLoader KaTeX"

definition loadHtml2Pdf :: "state \<Rightarrow> state" where
  "loadHtml2Pdf = callLoader Html2Pdf"

definition loadDocx :: "state \<Rightarrow> state" where
  "loadDocx = callLoader Docx"

text \<open>
  What a loader does after its \<^verbatim>\<open>await\<close>, with the module it received.
  \<^verbatim>\<open>loadMermaid\<close> (lines 48--61) tests the flag on \<^verbatim>\<open>mermaid.default\<close> and, when it is
  not set, calls \<^verbatim>\<open>initialize\<close> (line 49) and then sets the flag (line 60). The library
  decides whether the call of \<^verbatim>\<open>initialize\<close> returns or throws (the argument \<open>throws\<close>):
  when it throws, line 60 is not reached, the flag stays as it was and the loader ends
  rejected. \<^verbatim>\<open>loadKaTeX\<close> (lines 73--79) appends the stylesheet link unless one is there.
  The other two only return.
\<close>

fun afterAwait :: "bool \<Rightarrow> loader \<Rightarrow> jsmodule \<Rightarrow> state \<Rightarrow> state" where
  "afterAwait throws Mermaid m s =
     (if m \<notin> set (mermaidInitialized s)
      then (if throws
            then s\<lparr>initializeCalls := initializeCalls s @ [(m, True)]\<rparr>
            else s\<lparr>initializeCalls := initializeCalls s @ [(m, False)],
                   mermaidInitialized := m # mermaidInitialized s\<rparr>)
      else s)"
| "afterAwait throws KaTeX m s = (if \<not> katexLink s then s\<lparr>katexLink := True\<rparr> else s)"
| "afterAwait throws Html2Pdf m s = s"
| "afterAwait throws Docx m s = s"

text \<open>
  The outcome an \<^verbatim>\<open>await\<close> on the result of \<^verbatim>\<open>lazyLoad\<close> continues with, if there is
  one yet: \<open>Inr\<close> the module, \<open>Inl\<close> the reason thrown.
\<close>

definition outcome :: "state \<Rightarrow> resolution \<Rightarrow> (reason + jsmodule) option" where
  "outcome s r =
     (case r of
        Value m \<Rightarrow> Some (Inr m)
      | Follows p \<Rightarrow>
          (if p < length (promises s)
           then (case snd (promises s ! p) of
                   Pending \<Rightarrow> None
                 | Fulfilled m \<Rightarrow> Some (Inr m)
                 | Rejected e \<Rightarrow> Some (Inl e))
           else None))"

definition remove_nth :: "nat \<Rightarrow> 'a list \<Rightarrow> 'a list" where
  "remove_nth i xs = take i xs @ drop (Suc i) xs"

text \<open>
  The \<open>i\<close>-th suspended call continues: with a module it runs the rest of its loader
  (where a call of \<^verbatim>\<open>initialize\<close> throws if \<open>throws\<close> says so); with a reason the
  \<^verbatim>\<open>await\<close> throws and the call ends rejected. Nothing happens while the awaited promise
  is pending.
\<close>

definition resume :: "bool \<Rightarrow> nat \<Rightarrow> state \<Rightarrow> state" where
  "resume throws i s =
     (if i < length (suspended s)
      then (case suspended s ! i of
              (ld, r) \<Rightarrow>
                (case outcome s r of
                   None \<Rightarrow> s
                 | Some (Inl e) \<Rightarrow> s\<lparr>suspended := remove_nth i (suspended s)\<rparr>
                 | Some (Inr m) \<Rightarrow>
                     afterAwait throws ld m (s\<lparr>suspended := remove_nth i (suspended s)\<rparr>)))
      else s)"

subsection \<open>preloadInBackground (lines 118--133) and getLoadingStatus (lines 138--143)\<close>

text \<open>
  \<^verbatim>\<open>preloadInBackground(modules)\<close>; called without an argument, \<^verbatim>\<open>modules\<close> is
  \<^verbatim>\<open>['mermaid', 'katex']\<close>. The callback is registered with \<^verbatim>\<open>{ timeout: 5000 }\<close>;
  without \<^verbatim>\<open>requestIdleCallback\<close> nothing is registered.
\<close>

definition preloadInBackground :: "string list \<Rightarrow> state \<Rightarrow> state" where
  "preloadInBackground modules s =
     (if hasRequestIdleCallback s
      then s\<lparr>idleCallbacks := idleCallbacks s @ [(5000, modules)]\<rparr>
      else s)"

text \<open>The \<^verbatim>\<open>switch\<close> of the callback: two cases and no default.\<close>

definition preloadCase :: "string \<Rightarrow> state \<Rightarrow> state" where
  "preloadCase md s =
     (if md = ''mermaid'' then loadMermaid s
      else if md = ''katex'' then loadKaTeX s
      else s)"

text \<open>\<^verbatim>\<open>modules.forEach(..)\<close>, the body of the idle callback.\<close>

definition idleCallbackBody :: "string list \<Rightarrow> state \<Rightarrow> state" where
  "idleCallbackBody modules s = fold preloadCase modules s"

text \<open>
  The runtime runs the \<open>i\<close>-th registered callback, once (when the page is idle or
  when the timeout has passed).
\<close>

definition runIdleCallback :: "nat \<Rightarrow> state \<Rightarrow> state" where
  "runIdleCallback i s =
     (if i < length (idleCallbacks s)
      then idleCallbackBody (snd (idleCallbacks s ! i))
             (s\<lparr>idleCallbacks := remove_nth i (idleCallbacks s)\<rparr>)
      else s)"

record status =
  loaded :: "string list"
  loading :: "string list"

definition getLoadingStatus :: "state \<Rightarrow> status" where
  "getLoadingStatus s =
     \<lparr>loaded = map fst (moduleCache s), loading = map fst (loadingPromises s)\<rparr>"

subsection \<open>Executions\<close>

text \<open>
  Everything runs on one event loop, so an execution is a sequence of steps, each run to
  completion: a caller calls a loader or \<^verbatim>\<open>preloadInBackground\<close>, the runtime settles
  the import behind a pending \<^verbatim>\<open>loadPromise\<close>, resumes a suspended call, or runs a
  registered idle callback. A settlement of a promise that is not pending does not
  happen. A suspended call is resumed in one of two ways: \<open>Resume\<close>, where a call of
  \<^verbatim>\<open>mermaid.default.initialize\<close> it makes returns, and \<open>ResumeInitializeThrows\<close>, where
  such a call throws.
\<close>

datatype event =
    Call loader
  | ImportFulfils promise jsmodule
  | ImportRejects promise reason
  | Resume nat
  | Preload "string list"
  | Idle nat
  | ResumeInitializeThrows nat

definition isPending :: "state \<Rightarrow> promise \<Rightarrow> bool" where
  "isPending s p = (p < length (promises s) \<and> snd (promises s ! p) = Pending)"

fun step :: "event \<Rightarrow> state \<Rightarrow> state" where
  "step (Call ld) s = callLoader ld s"
| "step (ImportFulfils p m) s = (if isPending s p then onFulfilled p m s else s)"
| "step (ImportRejects p e) s = (if isPending s p then onRejected p e s else s)"
| "step (Resume i) s = resume False i s"
| "step (Preload modules) s = preloadInBackground modules s"
| "step (Idle i) s = runIdleCallback i s"
| "step (ResumeInitializeThrows i) s = resume True i s"

definition run :: "state \<Rightarrow> event list \<Rightarrow> state" where
  "run s evs = fold step evs s"


subsection \<open>Notions the properties are stated with\<close>

text \<open>How often the factory of a key (its \<^verbatim>\<open>importFn\<close>) has been called.\<close>

definition invocations :: "state \<Rightarrow> string \<Rightarrow> nat" where
  "invocations s k = length (filter (\<lambda>c. fst c = k) (importCalls s))"

text \<open>How often \<^verbatim>\<open>moduleCache.set\<close> has been called for a key.\<close>

definition cacheWrites :: "state \<Rightarrow> string \<Rightarrow> nat" where
  "cacheWrites s k = length (filter (\<lambda>c. fst c = k) (cacheSets s))"

text \<open>The load of key \<open>k\<close> is in flight behind promise \<open>p\<close>.\<close>

definition inFlight :: "state \<Rightarrow> string \<Rightarrow> promise \<Rightarrow> bool" where
  "inFlight s k p = (isPending s p \<and> fst (promises s ! p) = k)"

text \<open>The event settles the load of key \<open>k\<close> that is in flight.\<close>

fun settles :: "string \<Rightarrow> state \<Rightarrow> event \<Rightarrow> bool" where
  "settles k s (ImportFulfils p m) = inFlight s k p"
| "settles k s (ImportRejects p e) = inFlight s k p"
| "settles k s (Call ld) = False"
| "settles k s (Resume i) = False"
| "settles k s (Preload modules) = False"
| "settles k s (Idle i) = False"
| "settles k s (ResumeInitializeThrows i) = False"

text \<open>
  A stretch of an execution during which no load of key \<open>k\<close> settles: the requests
  for \<open>k\<close> made in it are concurrent.
\<close>

fun concurrent :: "string \<Rightarrow> state \<Rightarrow> event list \<Rightarrow> bool" where
  "concurrent k s [] = True"
| "concurrent k s (e # es) = (\<not> settles k s e \<and> concurrent k (step e s) es)"

text \<open>
  What the calls of \<^verbatim>\<open>lazyLoad\<close> for key \<open>k\<close> made between state \<open>s\<close> and a later
  state \<open>s'\<close> returned, one entry for each call.
\<close>

definition requestsSince :: "state \<Rightarrow> state \<Rightarrow> string \<Rightarrow> resolution list" where
  "requestsSince s s' k =
     map snd (filter (\<lambda>c. fst c = k) (drop (length (requests s)) (requests s')))"

text \<open>The event is one in which a call of \<^verbatim>\<open>initialize\<close> throws.\<close>

fun initializeThrows :: "event \<Rightarrow> bool" where
  "initializeThrows (ResumeInitializeThrows i) = True"
| "initializeThrows (Call ld) = False"
| "initializeThrows (ImportFulfils p m) = False"
| "initializeThrows (ImportRejects p e) = False"
| "initializeThrows (Resume i) = False"
| "initializeThrows (Preload modules) = False"
| "initializeThrows (Idle i) = False"

text \<open>The calls of \<^verbatim>\<open>initialize\<close> that returned.\<close>

definition initialized :: "state \<Rightarrow> jsmodule list" where
  "initialized s = map fst (filter (\<lambda>c. \<not> snd c) (initializeCalls s))"

text \<open>The loaders the \<^verbatim>\<open>switch\<close> of the idle callback reaches for a list of modules.\<close>

fun preloadTargets :: "string list \<Rightarrow> loader list" where
  "preloadTargets [] = []"
| "preloadTargets (md # mds) =
     (if md = ''mermaid'' then Mermaid # preloadTargets mds
      else if md = ''katex'' then KaTeX # preloadTargets mds
      else preloadTargets mds)"

subsection \<open>Well-formed states\<close>

definition wfm ::
  "(string \<times> jsmodule) list \<Rightarrow> (string \<times> promise) list \<Rightarrow> (string \<times> settlement) list \<Rightarrow> bool"
where
  "wfm c l ps \<longleftrightarrow>
     distinct (map fst c) \<and>
     distinct (map fst l) \<and>
     (\<forall>k p. map_of l k = Some p \<longrightarrow>
        p < length ps \<and> ps ! p = (k, Pending) \<and> map_of c k = None) \<and>
     (\<forall>p k. p < length ps \<longrightarrow> ps ! p = (k, Pending) \<longrightarrow> map_of l k = Some p) \<and>
     (\<forall>p k m. p < length ps \<longrightarrow> ps ! p = (k, Fulfilled m) \<longrightarrow> map_of c k = Some m) \<and>
     (\<forall>k m. map_of c k = Some m \<longrightarrow> (\<exists>p. p < length ps \<and> ps ! p = (k, Fulfilled m)))"

definition caller_ok :: "state \<Rightarrow> loader \<times> resolution \<Rightarrow> bool" where
  "caller_ok s c =
     (case snd c of
        Value m \<Rightarrow> map_of (moduleCache s) (moduleName (fst c)) = Some m
      | Follows p \<Rightarrow> p < length (promises s) \<and> fst (promises s ! p) = moduleName (fst c))"

definition init_ok :: "state \<Rightarrow> bool" where
  "init_ok s \<longleftrightarrow>
     initialized s = mermaidInitialized s \<and>
     list_all snd (butlast (initializeCalls s)) \<and>
     (mermaidInitialized s = [] \<or>
      (\<exists>m. mermaidInitialized s = [m] \<and> map_of (moduleCache s) ''mermaid'' = Some m))"

definition wf :: "state \<Rightarrow> bool" where
  "wf s \<longleftrightarrow>
     wfm (moduleCache s) (loadingPromises s) (promises s) \<and>
     cacheSets s = moduleCache s \<and>
     map fst (importCalls s) = map fst (promises s) \<and>
     list_all (caller_ok s) (suspended s) \<and>
     init_ok s"

text \<open>
  A later state keeps what an earlier one has settled: cache entries, the key of every
  promise, and the outcome of every promise that is not pending.
\<close>

definition keeps :: "state \<Rightarrow> state \<Rightarrow> bool" where
  "keeps s s' \<longleftrightarrow>
     (\<forall>k m. map_of (moduleCache s) k = Some m \<longrightarrow> map_of (moduleCache s') k = Some m) \<and>
     length (promises s) \<le> length (promises s') \<and>
     (\<forall>p. p < length (promises s) \<longrightarrow>
        fst (promises s' ! p) = fst (promises s ! p) \<and>
        (snd (promises s ! p) \<noteq> Pending \<longrightarrow> promises s' ! p = promises s ! p))"

text \<open>
  Between \<open>s\<close> and a later state \<open>s'\<close> the requests for key \<open>k\<close> shared one load: the
  key is still not cached, every call of \<^verbatim>\<open>lazyLoad\<close> for \<open>k\<close> made in between returned
  the promise that \<^verbatim>\<open>loadingPromises\<close> holds for \<open>k\<close> in \<open>s'\<close>, a load that was in flight
  in \<open>s\<close> still is, and the factory of \<open>k\<close> was called once if a load was started and not
  at all otherwise.
\<close>

definition sharesLoad :: "string \<Rightarrow> state \<Rightarrow> state \<Rightarrow> bool" where
  "sharesLoad k s s' \<longleftrightarrow>
     map_of (moduleCache s') k = None \<and>
     (\<exists>d. requests s' = requests s @ d \<and>
        (\<forall>c\<in>set d. fst c = k \<longrightarrow>
           (\<exists>p. map_of (loadingPromises s') k = Some p \<and> snd c = Follows p))) \<and>
     (\<forall>p. map_of (loadingPromises s) k = Some p \<longrightarrow> map_of (loadingPromises s') k = Some p) \<and>
     invocations s' k =
       invocations s k +
       (if map_of (loadingPromises s) k = None \<and> map_of (loadingPromises s') k \<noteq> None
        then 1 else 0)"

text \<open>Key \<open>k\<close> is loaded or loading.\<close>

definition present :: "state \<Rightarrow> string \<Rightarrow> bool" where
  "present s k \<longleftrightarrow> map_of (moduleCache s) k \<noteq> None \<or> map_of (loadingPromises s) k \<noteq> None"


section \<open>Regular expressions: the search finds every word\<close>

lemma matches_nil_nullable: "matches r w \<Longrightarrow> w = [] \<Longrightarrow> nullable r"
  by (induction rule: matches.induct) auto

lemma matches_deriv: "matches r w \<Longrightarrow> w = c # v \<Longrightarrow> matches (deriv c r) v"
proof (induction arbitrary: v rule: matches.induct)
  case (m_seq r u s v')
  show ?case
  proof (cases u)
    case Nil
    with m_seq have "nullable r" "matches (deriv c s) v"
      by (auto intro: matches_nil_nullable)
    then show ?thesis by (auto intro: matches.intros)
  next
    case (Cons a u')
    with m_seq have "a = c" "v = u' @ v'" "matches (deriv c r) u'" by auto
    with m_seq show ?thesis by (auto intro: matches.intros)
  qed
next
  case (m_star_step r u v')
  show ?case
  proof (cases u)
    case Nil
    with m_star_step show ?thesis by auto
  next
    case (Cons a u')
    with m_star_step have "a = c" "v = u' @ v'" "matches (deriv c r) u'" by auto
    with m_star_step show ?thesis by (auto intro: matches.intros)
  qed
qed (auto intro: matches.intros)

lemma match_prefix_complete: "matches r w \<Longrightarrow> match_prefix r (w @ rest)"
proof (induction w arbitrary: r)
  case Nil
  then have "nullable r" by (rule matches_nil_nullable) simp
  then show ?case by (cases rest) auto
next
  case (Cons c w)
  then show ?case by (auto dest: matches_deriv)
qed

lemma regex_test_complete: "matches r w \<Longrightarrow> regex_test r (pre @ w @ rest)"
proof (induction pre)
  case Nil
  then have "match_prefix r (w @ rest)" by (rule match_prefix_complete)
  then show ?case by (cases "w @ rest") auto
next
  case (Cons a pre)
  then show ?case by simp
qed

lemma matches_star_all: "\<forall>c\<in>set w. P c \<Longrightarrow> matches (Star (Atom P)) w"
proof (induction w)
  case Nil show ?case by (rule m_star_nil)
next
  case (Cons c w)
  then have "matches (Atom P) [c]" "matches (Star (Atom P)) w" by (auto intro: matches.intros)
  then have "matches (Star (Atom P)) ([c] @ w)" by (rule m_star_step)
  then show ?case by simp
qed

lemma matches_inline:
  assumes "m \<noteq> []" "\<forall>c\<in>set m. c \<noteq> CHR ''$'' \<and> c \<noteq> CHR 0x0A"
  shows "matches katex_re (''$'' @ m @ ''$'')"
proof -
  obtain c m' where m: "m = c # m'" using assms(1) by (cases m) auto
  let ?P = "\<lambda>c. c \<noteq> CHR ''$'' \<and> c \<noteq> CHR 0x0A"
  have "matches (Atom ?P) [c]" using assms(2) m by (auto intro: m_atom)
  moreover have "matches (Star (Atom ?P)) m'" using assms(2) m by (intro matches_star_all) auto
  ultimately have "matches (Plus (Atom ?P)) ([c] @ m')" unfolding Plus_def by (rule m_seq)
  moreover have "matches (lit CHR ''$'') ''$''" unfolding lit_def by (rule m_atom) simp
  ultimately have "matches (Seq (Plus (Atom ?P)) (lit CHR ''$'')) (([c] @ m') @ ''$'')"
    by (rule m_seq)
  moreover have "matches (lit CHR ''$'') ''$''" unfolding lit_def by (rule m_atom) simp
  ultimately have "matches (Seq (lit CHR ''$'') (Seq (Plus (Atom ?P)) (lit CHR ''$''))) (''$'' @ (([c] @ m') @ ''$''))"
    by (rule m_seq[rotated])
  then show ?thesis unfolding katex_re_def m by (auto intro: m_altr)
qed


section \<open>The loader state: invariants\<close>

lemma wfm_start:
  assumes w: "wfm c l ps" and ck: "map_of c k = None" and lk: "map_of l k = None"
  shows "wfm c (AList.update k (length ps) l) (ps @ [(k, Pending)])"
proof -
  from w have d1: "distinct (map fst c)" and d2: "distinct (map fst l)"
    and L: "\<And>k p. map_of l k = Some p \<Longrightarrow> p < length ps \<and> ps ! p = (k, Pending) \<and> map_of c k = None"
    and P: "\<And>p k. p < length ps \<Longrightarrow> ps ! p = (k, Pending) \<Longrightarrow> map_of l k = Some p"
    and F: "\<And>p k m. p < length ps \<Longrightarrow> ps ! p = (k, Fulfilled m) \<Longrightarrow> map_of c k = Some m"
    and C: "\<And>k m. map_of c k = Some m \<Longrightarrow> \<exists>p. p < length ps \<and> ps ! p = (k, Fulfilled m)"
    unfolding wfm_def by blast+
  have nopend: "\<And>p. p < length ps \<Longrightarrow> ps ! p \<noteq> (k, Pending)"
    using P lk by fastforce
  show ?thesis unfolding wfm_def
  proof (intro conjI allI impI)
    show "distinct (map fst c)" by (rule d1)
    show "distinct (map fst (AList.update k (length ps) l))" using d2 by (rule distinct_update)
  next
    fix k' p assume a: "map_of (AList.update k (length ps) l) k' = Some p"
    show "p < length (ps @ [(k, Pending)])"
      using a L[of k' p] by (cases "k' = k") (auto simp: update_conv')
    show "(ps @ [(k, Pending)]) ! p = (k', Pending)"
      using a L[of k' p] by (cases "k' = k") (auto simp: update_conv' nth_append)
    show "map_of c k' = None"
      using a L[of k' p] ck by (cases "k' = k") (auto simp: update_conv')
  next
    fix p k' assume a: "p < length (ps @ [(k, Pending)])" "(ps @ [(k, Pending)]) ! p = (k', Pending)"
    show "map_of (AList.update k (length ps) l) k' = Some p"
    proof (cases "p < length ps")
      case True
      with a have "ps ! p = (k', Pending)" by (simp add: nth_append)
      with True have "map_of l k' = Some p" "k' \<noteq> k" using P nopend by auto
      then show ?thesis by (simp add: update_conv')
    next
      case False
      with a have "p = length ps" "k' = k" by (auto simp: nth_append)
      then show ?thesis by (simp add: update_conv')
    qed
  next
    fix p k' m assume a: "p < length (ps @ [(k, Pending)])" "(ps @ [(k, Pending)]) ! p = (k', Fulfilled m)"
    then have "p < length ps" "ps ! p = (k', Fulfilled m)"
      by (auto simp: nth_append split: if_splits)
    then show "map_of c k' = Some m" by (rule F)
  next
    fix k' m assume "map_of c k' = Some m"
    then obtain p where "p < length ps" "ps ! p = (k', Fulfilled m)" using C by blast
    then have "p < length (ps @ [(k, Pending)]) \<and> (ps @ [(k, Pending)]) ! p = (k', Fulfilled m)"
      by (simp add: nth_append)
    then show "\<exists>p. p < length (ps @ [(k, Pending)]) \<and> (ps @ [(k, Pending)]) ! p = (k', Fulfilled m)" ..
  qed
qed

lemma wfm_fulfil:
  assumes w: "wfm c l ps" and pl: "p < length ps" and pp: "ps ! p = (k, Pending)"
  shows "wfm (AList.update k m c) (AList.delete k l) (ps[p := (k, Fulfilled m)])"
proof -
  from w have d1: "distinct (map fst c)" and d2: "distinct (map fst l)"
    and L: "\<And>k p. map_of l k = Some p \<Longrightarrow> p < length ps \<and> ps ! p = (k, Pending) \<and> map_of c k = None"
    and P: "\<And>p k. p < length ps \<Longrightarrow> ps ! p = (k, Pending) \<Longrightarrow> map_of l k = Some p"
    and F: "\<And>p k m. p < length ps \<Longrightarrow> ps ! p = (k, Fulfilled m) \<Longrightarrow> map_of c k = Some m"
    and C: "\<And>k m. map_of c k = Some m \<Longrightarrow> \<exists>p. p < length ps \<and> ps ! p = (k, Fulfilled m)"
    unfolding wfm_def by blast+
  have lk: "map_of l k = Some p" using P pl pp by blast
  then have ck: "map_of c k = None" using L by blast
  show ?thesis unfolding wfm_def
  proof (intro conjI allI impI)
    show "distinct (map fst (AList.update k m c))" using d1 by (rule distinct_update)
    show "distinct (map fst (AList.delete k l))" using d2 by (rule distinct_delete)
  next
    fix k' q assume a: "map_of (AList.delete k l) k' = Some q"
    then have kk: "k' \<noteq> k" and lq: "map_of l k' = Some q"
      by (auto simp: delete_conv' split: if_splits)
    from lq L have q: "q < length ps" "ps ! q = (k', Pending)" "map_of c k' = None" by blast+
    from q kk pp have "q \<noteq> p" by auto
    show "q < length (ps[p := (k, Fulfilled m)])" using q by simp
    show "ps[p := (k, Fulfilled m)] ! q = (k', Pending)" using q \<open>q \<noteq> p\<close> by simp
    show "map_of (AList.update k m c) k' = None" using q kk by (simp add: update_conv')
  next
    fix q k' assume a: "q < length (ps[p := (k, Fulfilled m)])" "ps[p := (k, Fulfilled m)] ! q = (k', Pending)"
    then have "q \<noteq> p" using pl by auto
    with a have q: "q < length ps" "ps ! q = (k', Pending)" by auto
    then have lq: "map_of l k' = Some q" using P by blast
    with lk \<open>q \<noteq> p\<close> have "k' \<noteq> k" by auto
    with lq show "map_of (AList.delete k l) k' = Some q" by (simp add: delete_conv')
  next
    fix q k' m' assume a: "q < length (ps[p := (k, Fulfilled m)])" "ps[p := (k, Fulfilled m)] ! q = (k', Fulfilled m')"
    show "map_of (AList.update k m c) k' = Some m'"
    proof (cases "q = p")
      case True
      with a pl show ?thesis by (simp add: update_conv')
    next
      case False
      with a have q: "q < length ps" "ps ! q = (k', Fulfilled m')" by auto
      then have cq: "map_of c k' = Some m'" using F by blast
      with ck have "k' \<noteq> k" by auto
      with cq show ?thesis by (simp add: update_conv')
    qed
  next
    fix k' m' assume a: "map_of (AList.update k m c) k' = Some m'"
    show "\<exists>q. q < length (ps[p := (k, Fulfilled m)]) \<and> ps[p := (k, Fulfilled m)] ! q = (k', Fulfilled m')"
    proof (cases "k' = k")
      case True
      with a have "m' = m" by (simp add: update_conv')
      with True pl have "p < length (ps[p := (k, Fulfilled m)]) \<and> ps[p := (k, Fulfilled m)] ! p = (k', Fulfilled m')"
        by simp
      then show ?thesis ..
    next
      case False
      with a have "map_of c k' = Some m'" by (simp add: update_conv')
      then obtain q where q: "q < length ps" "ps ! q = (k', Fulfilled m')" using C by blast
      with pp have "q \<noteq> p" by auto
      with q have "q < length (ps[p := (k, Fulfilled m)]) \<and> ps[p := (k, Fulfilled m)] ! q = (k', Fulfilled m')"
        by simp
      then show ?thesis ..
    qed
  qed
qed

lemma wfm_reject:
  assumes w: "wfm c l ps" and pl: "p < length ps" and pp: "ps ! p = (k, Pending)"
  shows "wfm c (AList.delete k l) (ps[p := (k, Rejected e)])"
proof -
  from w have d1: "distinct (map fst c)" and d2: "distinct (map fst l)"
    and L: "\<And>k p. map_of l k = Some p \<Longrightarrow> p < length ps \<and> ps ! p = (k, Pending) \<and> map_of c k = None"
    and P: "\<And>p k. p < length ps \<Longrightarrow> ps ! p = (k, Pending) \<Longrightarrow> map_of l k = Some p"
    and F: "\<And>p k m. p < length ps \<Longrightarrow> ps ! p = (k, Fulfilled m) \<Longrightarrow> map_of c k = Some m"
    and C: "\<And>k m. map_of c k = Some m \<Longrightarrow> \<exists>p. p < length ps \<and> ps ! p = (k, Fulfilled m)"
    unfolding wfm_def by blast+
  have lk: "map_of l k = Some p" using P pl pp by blast
  show ?thesis unfolding wfm_def
  proof (intro conjI allI impI)
    show "distinct (map fst c)" by (rule d1)
    show "distinct (map fst (AList.delete k l))" using d2 by (rule distinct_delete)
  next
    fix k' q assume a: "map_of (AList.delete k l) k' = Some q"
    then have kk: "k' \<noteq> k" and lq: "map_of l k' = Some q"
      by (auto simp: delete_conv' split: if_splits)
    from lq L have q: "q < length ps" "ps ! q = (k', Pending)" "map_of c k' = None" by blast+
    from q kk pp have "q \<noteq> p" by auto
    show "q < length (ps[p := (k, Rejected e)])" using q by simp
    show "ps[p := (k, Rejected e)] ! q = (k', Pending)" using q \<open>q \<noteq> p\<close> by simp
    show "map_of c k' = None" by (rule q)
  next
    fix q k' assume a: "q < length (ps[p := (k, Rejected e)])" "ps[p := (k, Rejected e)] ! q = (k', Pending)"
    then have "q \<noteq> p" using pl by auto
    with a have q: "q < length ps" "ps ! q = (k', Pending)" by auto
    then have lq: "map_of l k' = Some q" using P by blast
    with lk \<open>q \<noteq> p\<close> have "k' \<noteq> k" by auto
    with lq show "map_of (AList.delete k l) k' = Some q" by (simp add: delete_conv')
  next
    fix q k' m' assume a: "q < length (ps[p := (k, Rejected e)])" "ps[p := (k, Rejected e)] ! q = (k', Fulfilled m')"
    then have "q \<noteq> p" using pl by auto
    with a have q: "q < length ps" "ps ! q = (k', Fulfilled m')" by auto
    then show "map_of c k' = Some m'" using F by blast
  next
    fix k' m' assume a: "map_of c k' = Some m'"
    then obtain q where q: "q < length ps" "ps ! q = (k', Fulfilled m')" using C by blast
    with pp have "q \<noteq> p" by auto
    with q have "q < length (ps[p := (k, Rejected e)]) \<and> ps[p := (k, Rejected e)] ! q = (k', Fulfilled m')"
      by simp
    then show "\<exists>q. q < length (ps[p := (k, Rejected e)]) \<and> ps[p := (k, Rejected e)] ! q = (k', Fulfilled m')" ..
  qed
qed


subsection \<open>lazyLoad by cases\<close>

lemma lazyLoad_cases:
  obtains
    (hit) m where "map_of (moduleCache s) k = Some m"
      "lazyLoad k f s = (Value m, s\<lparr>requests := requests s @ [(k, Value m)]\<rparr>)"
  | (join) p where "map_of (moduleCache s) k = None" "map_of (loadingPromises s) k = Some p"
      "lazyLoad k f s = (Follows p, s\<lparr>requests := requests s @ [(k, Follows p)]\<rparr>)"
  | (start) "map_of (moduleCache s) k = None" "map_of (loadingPromises s) k = None"
      "lazyLoad k f s =
         (Follows (length (promises s)),
          s\<lparr>importCalls := importCalls s @ [(k, f)],
            promises := promises s @ [(k, Pending)],
            loadingPromises := AList.update k (length (promises s)) (loadingPromises s),
            requests := requests s @ [(k, Follows (length (promises s)))]\<rparr>)"
proof (cases "map_of (moduleCache s) k")
  case (Some m)
  then have "lazyLoad k f s = (Value m, s\<lparr>requests := requests s @ [(k, Value m)]\<rparr>)"
    by (simp add: lazyLoad_def)
  with Some show ?thesis by (rule hit)
next
  case None
  show ?thesis
  proof (cases "map_of (loadingPromises s) k")
    case (Some p)
    with None have "lazyLoad k f s = (Follows p, s\<lparr>requests := requests s @ [(k, Follows p)]\<rparr>)"
      by (simp add: lazyLoad_def)
    with None Some show ?thesis by (rule join)
  next
    case None2: None
    with None show ?thesis by (intro start) (simp_all add: lazyLoad_def Let_def)
  qed
qed

subsection \<open>What a later state keeps\<close>

lemma keeps_refl: "keeps s s"
  by (simp add: keeps_def)

lemma keeps_trans: 
  assumes "keeps s t" "keeps t u" shows "keeps s u"
  unfolding keeps_def
proof (intro conjI allI impI)
  fix k m assume "map_of (moduleCache s) k = Some m"
  then show "map_of (moduleCache u) k = Some m" using assms unfolding keeps_def by blast
next
  show "length (promises s) \<le> length (promises u)" using assms unfolding keeps_def by linarith
next
  fix p assume p: "p < length (promises s)"
  then have pt: "p < length (promises t)" using assms(1) unfolding keeps_def by linarith
  from p assms(1) have a: "fst (promises t ! p) = fst (promises s ! p)"
    "snd (promises s ! p) \<noteq> Pending \<longrightarrow> promises t ! p = promises s ! p"
    unfolding keeps_def by blast+
  from pt assms(2) have b: "fst (promises u ! p) = fst (promises t ! p)"
    "snd (promises t ! p) \<noteq> Pending \<longrightarrow> promises u ! p = promises t ! p"
    unfolding keeps_def by blast+
  show "fst (promises u ! p) = fst (promises s ! p)" using a b by simp
  {
    assume "snd (promises s ! p) \<noteq> Pending"
    then show "promises u ! p = promises s ! p" using a b by auto
  }
qed

lemma keeps_same:
  "moduleCache s' = moduleCache s \<Longrightarrow> promises s' = promises s \<Longrightarrow> keeps s s'"
  by (simp add: keeps_def)

lemma keeps_lazyLoad: "keeps s (snd (lazyLoad k f s))"
  by (cases rule: lazyLoad_cases[of s k f]) (simp_all add: keeps_def nth_append)

lemma keeps_onRejected: "isPending s p \<Longrightarrow> keeps s (onRejected p e s)"
  by (auto simp: keeps_def onRejected_def isPending_def Let_def nth_list_update)

lemma keeps_onFulfilled:
  assumes w: "wfm (moduleCache s) (loadingPromises s) (promises s)" and p: "isPending s p"
  shows "keeps s (onFulfilled p m s)"
proof -
  obtain k where k: "promises s ! p = (k, Pending)" "p < length (promises s)"
    using p by (cases "promises s ! p") (auto simp: isPending_def)
  from w k have "map_of (loadingPromises s) k = Some p" unfolding wfm_def by blast
  with w have ck: "map_of (moduleCache s) k = None" unfolding wfm_def by blast
  have c: "\<And>k' m'. map_of (moduleCache s) k' = Some m' \<Longrightarrow>
      map_of (AList.update k m (moduleCache s)) k' = Some m'"
    using ck by (auto simp: update_conv')
  show ?thesis using k c
    by (auto simp: keeps_def onFulfilled_def Let_def nth_list_update)
qed

lemma caller_ok_keeps: "keeps s s' \<Longrightarrow> caller_ok s c \<Longrightarrow> caller_ok s' c"
  unfolding keeps_def caller_ok_def
  by (cases "snd c") (auto simp: )

lemma callers_keep: "keeps s s' \<Longrightarrow> list_all (caller_ok s) xs \<Longrightarrow> list_all (caller_ok s') xs"
  by (auto simp: list_all_iff intro: caller_ok_keeps)

lemma init_ok_keeps:
  "keeps s s' \<Longrightarrow> initializeCalls s' = initializeCalls s \<Longrightarrow>
   mermaidInitialized s' = mermaidInitialized s \<Longrightarrow> init_ok s \<Longrightarrow> init_ok s'"
  unfolding keeps_def init_ok_def initialized_def by auto



subsection \<open>Well-formedness is invariant\<close>

lemma caller_ok_cong:
  assumes "moduleCache s' = moduleCache s" "promises s' = promises s"
  shows "caller_ok s' = caller_ok s"
proof (rule ext)
  fix c
  show "caller_ok s' c = caller_ok s c" unfolding caller_ok_def assms ..
qed

lemma wf_cong:
  assumes "moduleCache s' = moduleCache s" "loadingPromises s' = loadingPromises s"
    "promises s' = promises s" "cacheSets s' = cacheSets s" "importCalls s' = importCalls s"
    "suspended s' = suspended s" "mermaidInitialized s' = mermaidInitialized s"
    "initializeCalls s' = initializeCalls s"
  shows "wf s' = wf s"
  using assms caller_ok_cong[of s' s] by (simp add: wf_def init_ok_def initialized_def)

lemma wf_initial: "wf (initial idle link)"
  by (simp add: wf_def wfm_def init_ok_def initialized_def initial_def)

lemma update_absent: "map_of al k = None \<Longrightarrow> AList.update k v al = al @ [(k, v)]"
  by (induction al) (auto split: if_splits)

lemma lazyLoad_frame:
  "suspended (snd (lazyLoad k f s)) = suspended s"
  "mermaidInitialized (snd (lazyLoad k f s)) = mermaidInitialized s"
  "initializeCalls (snd (lazyLoad k f s)) = initializeCalls s"
  "moduleCache (snd (lazyLoad k f s)) = moduleCache s"
  "cacheSets (snd (lazyLoad k f s)) = cacheSets s"
  "idleCallbacks (snd (lazyLoad k f s)) = idleCallbacks s"
  "hasRequestIdleCallback (snd (lazyLoad k f s)) = hasRequestIdleCallback s"
  by (cases rule: lazyLoad_cases[of s k f]; simp)+

lemma wf_lazyLoad:
  assumes w: "wf s"
  shows "wf (snd (lazyLoad k f s))"
proof -
  let ?s' = "snd (lazyLoad k f s)"
  have K: "keeps s ?s'" by (rule keeps_lazyLoad)
  have 1: "wfm (moduleCache ?s') (loadingPromises ?s') (promises ?s')"
    using w by (cases rule: lazyLoad_cases[of s k f]) (simp_all add: wf_def wfm_start)
  have 2: "cacheSets ?s' = moduleCache ?s'"
    using w by (simp add: lazyLoad_frame wf_def)
  have 3: "map fst (importCalls ?s') = map fst (promises ?s')"
    using w by (cases rule: lazyLoad_cases[of s k f]) (simp_all add: wf_def)
  have 4: "list_all (caller_ok ?s') (suspended ?s')"
    using w callers_keep[OF K] by (simp add: lazyLoad_frame wf_def)
  have 5: "init_ok ?s'"
    using w init_ok_keeps[OF K] by (simp add: lazyLoad_frame wf_def)
  show ?thesis unfolding wf_def using 1 2 3 4 5 by blast
qed

lemma lazyLoad_result_ok:
  assumes w: "wf s"
  shows "caller_ok (snd (lazyLoad (moduleName ld) f s)) (ld, fst (lazyLoad (moduleName ld) f s))"
proof (cases rule: lazyLoad_cases[of s "moduleName ld" f])
  case (hit m)
  then show ?thesis by (simp add: caller_ok_def)
next
  case (join p)
  with w have "p < length (promises s) \<and> promises s ! p = (moduleName ld, Pending)"
    unfolding wf_def wfm_def by blast
  with join show ?thesis by (simp add: caller_ok_def)
next
  case start
  then show ?thesis by (simp add: caller_ok_def)
qed

lemma wf_suspended:
  "wf s \<Longrightarrow> list_all (caller_ok s) xs \<Longrightarrow> wf (s\<lparr>suspended := xs\<rparr>)"
  using caller_ok_cong[of "s\<lparr>suspended := xs\<rparr>" s]
  by (simp add: wf_def init_ok_def initialized_def)

lemma wf_callLoader:
  assumes w: "wf s"
  shows "wf (callLoader ld s)"
proof -
  obtain r s' where l: "lazyLoad (moduleName ld) (importOf ld) s = (r, s')"
    by (cases "lazyLoad (moduleName ld) (importOf ld) s")
  have w': "wf s'" using wf_lazyLoad[OF w, of "moduleName ld" "importOf ld"] l by simp
  have c: "caller_ok s' (ld, r)" using lazyLoad_result_ok[OF w, of ld "importOf ld"] l by simp
  from w' have "list_all (caller_ok s') (suspended s')" by (simp add: wf_def)
  with c have "list_all (caller_ok s') (suspended s' @ [(ld, r)])" by simp
  with w' have "wf (s'\<lparr>suspended := suspended s' @ [(ld, r)]\<rparr>)" by (rule wf_suspended)
  with l show ?thesis by (simp add: callLoader_def)
qed

lemma pending_key:
  assumes "isPending s p"
  shows "p < length (promises s)" "promises s ! p = (fst (promises s ! p), Pending)"
  using assms by (auto simp: isPending_def prod_eq_iff)

lemma pending_uncached:
  assumes w: "wf s" and p: "isPending s p"
  shows "map_of (moduleCache s) (fst (promises s ! p)) = None"
proof -
  note k = pending_key[OF p]
  from w k have "map_of (loadingPromises s) (fst (promises s ! p)) = Some p"
    unfolding wf_def wfm_def by blast
  with w show ?thesis unfolding wf_def wfm_def by blast
qed

lemma map_fst_list_update: "p < length ps \<Longrightarrow> map fst (ps[p := (fst (ps ! p), x)]) = map fst ps"
  by (simp add: map_update list_update_same_conv)

lemma wf_onFulfilled:
  assumes w: "wf s" and p: "isPending s p"
  shows "wf (onFulfilled p m s)"
proof -
  let ?s' = "onFulfilled p m s"
  let ?k = "fst (promises s ! p)"
  note k = pending_key[OF p]
  have ck: "map_of (moduleCache s) ?k = None" using w p by (rule pending_uncached)
  from w have wm: "wfm (moduleCache s) (loadingPromises s) (promises s)" by (simp add: wf_def)
  have K: "keeps s ?s'" using wm p by (rule keeps_onFulfilled)
  have 1: "wfm (moduleCache ?s') (loadingPromises ?s') (promises ?s')"
    using wfm_fulfil[OF wm k, of m] by (simp add: onFulfilled_def Let_def)
  have 2: "cacheSets ?s' = moduleCache ?s'"
    using w ck by (simp add: onFulfilled_def Let_def wf_def update_absent)
  have 3: "map fst (importCalls ?s') = map fst (promises ?s')"
    using w k(1) by (simp add: onFulfilled_def Let_def wf_def map_fst_list_update)
  have 4: "list_all (caller_ok ?s') (suspended ?s')"
    using w callers_keep[OF K, of "suspended s"] by (simp add: onFulfilled_def Let_def wf_def)
  have 5: "init_ok ?s'"
    using w init_ok_keeps[OF K] by (simp add: onFulfilled_def Let_def wf_def)
  show ?thesis unfolding wf_def using 1 2 3 4 5 by blast
qed

lemma wf_onRejected:
  assumes w: "wf s" and p: "isPending s p"
  shows "wf (onRejected p e s)"
proof -
  let ?s' = "onRejected p e s"
  note k = pending_key[OF p]
  from w have wm: "wfm (moduleCache s) (loadingPromises s) (promises s)" by (simp add: wf_def)
  have K: "keeps s ?s'" using p by (rule keeps_onRejected)
  have 1: "wfm (moduleCache ?s') (loadingPromises ?s') (promises ?s')"
    using wfm_reject[OF wm k, of e] by (simp add: onRejected_def Let_def)
  have 2: "cacheSets ?s' = moduleCache ?s'"
    using w by (simp add: onRejected_def Let_def wf_def)
  have 3: "map fst (importCalls ?s') = map fst (promises ?s')"
    using w k(1) by (simp add: onRejected_def Let_def wf_def map_fst_list_update)
  have 4: "list_all (caller_ok ?s') (suspended ?s')"
    using w callers_keep[OF K, of "suspended s"] by (simp add: onRejected_def Let_def wf_def)
  have 5: "init_ok ?s'"
    using w init_ok_keeps[OF K] by (simp add: onRejected_def Let_def wf_def)
  show ?thesis unfolding wf_def using 1 2 3 4 5 by blast
qed

lemma wf_afterAwait:
  assumes w: "wf s" and c: "ld = Mermaid \<Longrightarrow> map_of (moduleCache s) ''mermaid'' = Some m"
  shows "wf (afterAwait throws ld m s)"
proof (cases ld)
  case Mermaid
  show ?thesis
  proof (cases "m \<in> set (mermaidInitialized s)")
    case True
    with Mermaid w show ?thesis by simp
  next
    case False
    from w have i: "init_ok s" by (simp add: wf_def)
    from c Mermaid have cm: "map_of (moduleCache s) ''mermaid'' = Some m" by simp
    from i False cm have e: "mermaidInitialized s = []" by (auto simp: init_ok_def)
    with i have "filter (\<lambda>c. \<not> snd c) (initializeCalls s) = []"
      by (simp add: init_ok_def initialized_def)
    then have all: "list_all snd (initializeCalls s)"
      by (auto simp: filter_empty_conv list_all_iff)
    then have f: "filter (\<lambda>c. \<not> snd c) (initializeCalls s) = []"
      by (auto simp: filter_empty_conv list_all_iff)
    show ?thesis
    proof (cases throws)
      case True
      let ?s' = "s\<lparr>initializeCalls := initializeCalls s @ [(m, True)]\<rparr>"
      have "init_ok ?s'" using e all f by (simp add: init_ok_def initialized_def)
      moreover have "caller_ok ?s' = caller_ok s" by (rule caller_ok_cong) simp_all
      ultimately have "wf ?s'" using w by (simp add: wf_def)
      with False Mermaid True show ?thesis by simp
    next
      case nt: False
      let ?s' = "s\<lparr>initializeCalls := initializeCalls s @ [(m, False)],
             mermaidInitialized := m # mermaidInitialized s\<rparr>"
      have "init_ok ?s'" using e all f cm by (simp add: init_ok_def initialized_def)
      moreover have "caller_ok ?s' = caller_ok s" by (rule caller_ok_cong) simp_all
      ultimately have "wf ?s'" using w by (simp add: wf_def)
      with False Mermaid nt show ?thesis by simp
    qed
  qed
next
  case KaTeX
  have "wf (s\<lparr>katexLink := True\<rparr>) = wf s" by (rule wf_cong) simp_all
  with KaTeX w show ?thesis by simp
next
  case Html2Pdf
  with w show ?thesis by simp
next
  case Docx
  with w show ?thesis by simp
qed

lemma set_remove_nth: "set (remove_nth i xs) \<subseteq> set xs"
  unfolding remove_nth_def using set_take_subset[of i xs] set_drop_subset[of "Suc i" xs] by auto

lemma outcome_module:
  assumes w: "wf s" and c: "caller_ok s (ld, r)" and o: "outcome s r = Some (Inr m)"
  shows "map_of (moduleCache s) (moduleName ld) = Some m"
proof (cases r)
  case (Value m')
  with c o show ?thesis by (simp add: caller_ok_def outcome_def)
next
  case (Follows p)
  with c have p: "p < length (promises s)" "fst (promises s ! p) = moduleName ld"
    by (simp_all add: caller_ok_def)
  with o Follows have "snd (promises s ! p) = Fulfilled m"
    by (auto simp: outcome_def split: settlement.splits)
  with p have "promises s ! p = (moduleName ld, Fulfilled m)" by (simp add: prod_eq_iff)
  with w p show ?thesis unfolding wf_def wfm_def by blast
qed

lemma wf_resume:
  assumes w: "wf s"
  shows "wf (resume throws i s)"
proof (cases "i < length (suspended s)")
  case False
  with w show ?thesis by (simp add: resume_def)
next
  case True
  obtain ld r where lr: "suspended s ! i = (ld, r)" by (cases "suspended s ! i")
  let ?t = "s\<lparr>suspended := remove_nth i (suspended s)\<rparr>"
  from w have all: "list_all (caller_ok s) (suspended s)" by (simp add: wf_def)
  with True lr have c: "caller_ok s (ld, r)" by (auto simp: list_all_length)
  from all have "list_all (caller_ok s) (remove_nth i (suspended s))"
    using set_remove_nth[of i "suspended s"] by (auto simp: list_all_iff)
  with w have wt: "wf ?t" by (rule wf_suspended)
  show ?thesis
  proof (cases "outcome s r")
    case None
    with True lr w show ?thesis by (simp add: resume_def)
  next
    case (Some x)
    show ?thesis
    proof (cases x)
      case (Inl e)
      with Some True lr wt show ?thesis by (simp add: resume_def)
    next
      case (Inr m)
      with Some have "map_of (moduleCache s) (moduleName ld) = Some m"
        using outcome_module[OF w c] by simp
      then have "ld = Mermaid \<Longrightarrow> map_of (moduleCache ?t) ''mermaid'' = Some m" by simp
      with wt have "wf (afterAwait throws ld m ?t)" by (rule wf_afterAwait)
      with Some Inr True lr show ?thesis by (simp add: resume_def)
    qed
  qed
qed

lemma wf_idleCallbacks: "wf (s\<lparr>idleCallbacks := x\<rparr>) = wf s"
  by (rule wf_cong) simp_all

lemma wf_preloadInBackground: "wf s \<Longrightarrow> wf (preloadInBackground modules s)"
  by (simp add: preloadInBackground_def wf_idleCallbacks)

lemma wf_preloadCase: "wf s \<Longrightarrow> wf (preloadCase md s)"
  by (simp add: preloadCase_def loadMermaid_def loadKaTeX_def wf_callLoader)

lemma wf_idleCallbackBody: "wf s \<Longrightarrow> wf (idleCallbackBody modules s)"
  unfolding idleCallbackBody_def
  by (induction modules arbitrary: s) (simp_all add: wf_preloadCase)

lemma wf_runIdleCallback: "wf s \<Longrightarrow> wf (runIdleCallback i s)"
  by (simp add: runIdleCallback_def wf_idleCallbackBody wf_idleCallbacks)

lemma wf_step: "wf s \<Longrightarrow> wf (step e s)"
  by (cases e)
    (simp_all add: wf_callLoader wf_onFulfilled wf_onRejected wf_resume
      wf_preloadInBackground wf_runIdleCallback)

lemma wf_run: "wf s \<Longrightarrow> wf (run s evs)"
  unfolding run_def by (induction evs arbitrary: s) (simp_all add: wf_step)

lemma wf_reachable: "wf (run (initial idle link) evs)"
  by (rule wf_run) (rule wf_initial)

subsection \<open>Consequences for reachable states\<close>

lemma wfm_loadingD:
  "wfm c l ps \<Longrightarrow> map_of l k = Some p \<Longrightarrow>
     p < length ps \<and> ps ! p = (k, Pending) \<and> map_of c k = None"
  unfolding wfm_def by blast

lemma wfm_pendingD:
  "wfm c l ps \<Longrightarrow> p < length ps \<Longrightarrow> ps ! p = (k, Pending) \<Longrightarrow> map_of l k = Some p"
  unfolding wfm_def by blast

lemma wfm_fulfilledD:
  "wfm c l ps \<Longrightarrow> p < length ps \<Longrightarrow> ps ! p = (k, Fulfilled m) \<Longrightarrow> map_of c k = Some m"
  unfolding wfm_def by blast

lemma wfm_cachedD:
  "wfm c l ps \<Longrightarrow> map_of c k = Some m \<Longrightarrow> \<exists>p. p < length ps \<and> ps ! p = (k, Fulfilled m)"
  unfolding wfm_def by blast

lemma wfm_distinctD:
  "wfm c l ps \<Longrightarrow> distinct (map fst c) \<and> distinct (map fst l)"
  unfolding wfm_def by blast

lemma wfm_reachable:
  "wfm (moduleCache (run (initial idle link) evs)) (loadingPromises (run (initial idle link) evs))
     (promises (run (initial idle link) evs))"
  using wf_reachable[of idle link evs] by (simp add: wf_def)

lemma inFlight_iff: "inFlight s k p \<longleftrightarrow> p < length (promises s) \<and> promises s ! p = (k, Pending)"
  by (auto simp: inFlight_def isPending_def prod_eq_iff)

lemma distinct_count_le1: "distinct (map fst l) \<Longrightarrow> length (filter (\<lambda>c. fst c = k) l) \<le> 1"
proof (induction l)
  case Nil
  then show ?case by simp
next
  case (Cons a l)
  show ?case
  proof (cases "fst a = k")
    case True
    with Cons.prems have "k \<notin> fst ` set l" by auto
    then have "filter (\<lambda>c. fst c = k) l = []" by (auto simp: filter_empty_conv)
    with True show ?thesis by simp
  next
    case False
    with Cons show ?thesis by simp
  qed
qed


lemma keeps_cong:
  "moduleCache u = moduleCache t \<Longrightarrow> promises u = promises t \<Longrightarrow> keeps s t \<Longrightarrow> keeps s u"
  by (simp add: keeps_def)

lemma afterAwait_frame:
  "moduleCache (afterAwait throws ld m s) = moduleCache s"
  "loadingPromises (afterAwait throws ld m s) = loadingPromises s"
  "promises (afterAwait throws ld m s) = promises s"
  "requests (afterAwait throws ld m s) = requests s"
  "importCalls (afterAwait throws ld m s) = importCalls s"
  "cacheSets (afterAwait throws ld m s) = cacheSets s"
  "idleCallbacks (afterAwait throws ld m s) = idleCallbacks s"
  by (cases ld; simp)+

lemma resume_frame:
  "moduleCache (resume throws i s) = moduleCache s"
  "loadingPromises (resume throws i s) = loadingPromises s"
  "promises (resume throws i s) = promises s"
  "requests (resume throws i s) = requests s"
  "importCalls (resume throws i s) = importCalls s"
  "cacheSets (resume throws i s) = cacheSets s"
  "idleCallbacks (resume throws i s) = idleCallbacks s"
  by (simp_all add: resume_def afterAwait_frame split: prod.splits option.splits sum.splits)

lemma callLoader_frame:
  "moduleCache (callLoader ld s) = moduleCache (snd (lazyLoad (moduleName ld) (importOf ld) s))"
  "loadingPromises (callLoader ld s) = loadingPromises (snd (lazyLoad (moduleName ld) (importOf ld) s))"
  "promises (callLoader ld s) = promises (snd (lazyLoad (moduleName ld) (importOf ld) s))"
  "requests (callLoader ld s) = requests (snd (lazyLoad (moduleName ld) (importOf ld) s))"
  "importCalls (callLoader ld s) = importCalls (snd (lazyLoad (moduleName ld) (importOf ld) s))"
  "cacheSets (callLoader ld s) = cacheSets (snd (lazyLoad (moduleName ld) (importOf ld) s))"
  "idleCallbacks (callLoader ld s) = idleCallbacks (snd (lazyLoad (moduleName ld) (importOf ld) s))"
  by (simp_all add: callLoader_def split: prod.splits)

lemma keeps_callLoader: "keeps s (callLoader ld s)"
  using keeps_lazyLoad[of s "moduleName ld" "importOf ld"]
  by (rule keeps_cong[rotated 2]) (simp_all add: callLoader_frame)

lemma keeps_preloadCase: "keeps s (preloadCase md s)"
  by (simp add: preloadCase_def loadMermaid_def loadKaTeX_def keeps_callLoader keeps_refl)

lemma keeps_fold_preloadCase: "keeps s (fold preloadCase modules s)"
proof (induction modules arbitrary: s)
  case Nil
  show ?case by (simp add: keeps_refl)
next
  case (Cons md modules)
  have "keeps s (preloadCase md s)" by (rule keeps_preloadCase)
  moreover have "keeps (preloadCase md s) (fold preloadCase modules (preloadCase md s))"
    by (rule Cons.IH)
  ultimately show ?case by (simp add: keeps_trans)
qed

lemma keeps_runIdleCallback: "keeps s (runIdleCallback i s)"
proof (cases "i < length (idleCallbacks s)")
  case True
  let ?t = "s\<lparr>idleCallbacks := remove_nth i (idleCallbacks s)\<rparr>"
  have "keeps s ?t" by (rule keeps_same) simp_all
  moreover have "keeps ?t (fold preloadCase (snd (idleCallbacks s ! i)) ?t)"
    by (rule keeps_fold_preloadCase)
  ultimately have "keeps s (fold preloadCase (snd (idleCallbacks s ! i)) ?t)"
    by (rule keeps_trans)
  with True show ?thesis by (simp add: runIdleCallback_def idleCallbackBody_def)
next
  case False
  then show ?thesis by (simp add: runIdleCallback_def keeps_refl)
qed

lemma keeps_step: "wf s \<Longrightarrow> keeps s (step e s)"
proof (cases e)
  case (Call ld)
  then show ?thesis by (simp add: keeps_callLoader)
next
  case (ImportFulfils p m)
  assume "wf s"
  then have "wfm (moduleCache s) (loadingPromises s) (promises s)" by (simp add: wf_def)
  with ImportFulfils show ?thesis by (simp add: keeps_onFulfilled keeps_refl)
next
  case (ImportRejects p e)
  then show ?thesis by (simp add: keeps_onRejected keeps_refl)
next
  case (Resume i)
  then show ?thesis by (simp add: keeps_same resume_frame)
next
  case (Preload modules)
  then show ?thesis by (simp add: keeps_same preloadInBackground_def)
next
  case (Idle i)
  then show ?thesis by (simp add: keeps_runIdleCallback)
next
  case (ResumeInitializeThrows i)
  then show ?thesis by (simp add: keeps_same resume_frame)
qed

lemma keeps_run: "wf s \<Longrightarrow> keeps s (run s evs)"
proof (induction evs arbitrary: s)
  case Nil
  show ?case by (simp add: run_def keeps_refl)
next
  case (Cons e evs)
  have "keeps s (step e s)" using Cons.prems by (rule keeps_step)
  moreover have "keeps (step e s) (run (step e s) evs)"
    using Cons.prems by (intro Cons.IH wf_step)
  ultimately have "keeps s (run (step e s) evs)" by (rule keeps_trans)
  then show ?case by (simp add: run_def)
qed

lemma keeps_cacheD:
  "keeps s s' \<Longrightarrow> map_of (moduleCache s) k = Some m \<Longrightarrow> map_of (moduleCache s') k = Some m"
  unfolding keeps_def by blast

lemma keeps_promiseD:
  "keeps s s' \<Longrightarrow> p < length (promises s) \<Longrightarrow> snd (promises s ! p) \<noteq> Pending \<Longrightarrow>
   p < length (promises s') \<and> promises s' ! p = promises s ! p"
  unfolding keeps_def by auto


subsection \<open>Requests that share one load\<close>

lemma sharesLoadI:
  assumes "map_of (moduleCache s') k = None"
    and "requests s' = requests s @ d"
    and "\<And>c. c \<in> set d \<Longrightarrow> fst c = k \<Longrightarrow>
           \<exists>p. map_of (loadingPromises s') k = Some p \<and> snd c = Follows p"
    and "\<And>p. map_of (loadingPromises s) k = Some p \<Longrightarrow> map_of (loadingPromises s') k = Some p"
    and "invocations s' k =
       invocations s k +
       (if map_of (loadingPromises s) k = None \<and> map_of (loadingPromises s') k \<noteq> None
        then 1 else 0)"
  shows "sharesLoad k s s'"
  unfolding sharesLoad_def using assms by blast

lemma sharesLoad_same:
  assumes "map_of (moduleCache s) k = None" "moduleCache s' = moduleCache s"
    "loadingPromises s' = loadingPromises s" "requests s' = requests s"
    "importCalls s' = importCalls s"
  shows "sharesLoad k s s'"
  by (rule sharesLoadI[where d = "[]"]) (auto simp: assms invocations_def)

lemma sharesLoad_refl: "map_of (moduleCache s) k = None \<Longrightarrow> sharesLoad k s s"
  by (rule sharesLoad_same) simp_all

lemma sharesLoad_cong:
  assumes "sharesLoad k s t" "moduleCache u = moduleCache t"
    "loadingPromises u = loadingPromises t" "requests u = requests t"
    "importCalls u = importCalls t"
  shows "sharesLoad k s u"
  using assms(1) unfolding sharesLoad_def invocations_def assms(2-5) .

lemma sharesLoad_trans:
  assumes A: "sharesLoad k s t" and B: "sharesLoad k t u"
  shows "sharesLoad k s u"
proof -
  from A obtain d1 where
    a1: "requests t = requests s @ d1" and
    a2: "\<And>c. c \<in> set d1 \<Longrightarrow> fst c = k \<Longrightarrow>
           \<exists>p. map_of (loadingPromises t) k = Some p \<and> snd c = Follows p" and
    a3: "\<And>p. map_of (loadingPromises s) k = Some p \<Longrightarrow> map_of (loadingPromises t) k = Some p" and
    a4: "invocations t k = invocations s k +
       (if map_of (loadingPromises s) k = None \<and> map_of (loadingPromises t) k \<noteq> None
        then 1 else 0)"
    unfolding sharesLoad_def by blast
  from B obtain d2 where
    b0: "map_of (moduleCache u) k = None" and
    b1: "requests u = requests t @ d2" and
    b2: "\<And>c. c \<in> set d2 \<Longrightarrow> fst c = k \<Longrightarrow>
           \<exists>p. map_of (loadingPromises u) k = Some p \<and> snd c = Follows p" and
    b3: "\<And>p. map_of (loadingPromises t) k = Some p \<Longrightarrow> map_of (loadingPromises u) k = Some p" and
    b4: "invocations u k = invocations t k +
       (if map_of (loadingPromises t) k = None \<and> map_of (loadingPromises u) k \<noteq> None
        then 1 else 0)"
    unfolding sharesLoad_def by blast
  show ?thesis
  proof (rule sharesLoadI[where d = "d1 @ d2"])
    show "map_of (moduleCache u) k = None" by (rule b0)
    show "requests u = requests s @ d1 @ d2" using a1 b1 by simp
  next
    fix c assume c: "c \<in> set (d1 @ d2)" "fst c = k"
    show "\<exists>p. map_of (loadingPromises u) k = Some p \<and> snd c = Follows p"
    proof (cases "c \<in> set d1")
      case True
      with c obtain p where "map_of (loadingPromises t) k = Some p" "snd c = Follows p"
        using a2 by blast
      with b3 show ?thesis by blast
    next
      case False
      with c have "c \<in> set d2" by simp
      with c show ?thesis using b2 by blast
    qed
  next
    fix p assume "map_of (loadingPromises s) k = Some p"
    then show "map_of (loadingPromises u) k = Some p" using a3 b3 by blast
  next
    show "invocations u k = invocations s k +
       (if map_of (loadingPromises s) k = None \<and> map_of (loadingPromises u) k \<noteq> None
        then 1 else 0)"
    proof (cases "map_of (loadingPromises s) k")
      case (Some p)
      then have "map_of (loadingPromises t) k = Some p" by (rule a3)
      moreover from this have "map_of (loadingPromises u) k = Some p" by (rule b3)
      ultimately show ?thesis using Some a4 b4 by simp
    next
      case None
      show ?thesis
      proof (cases "map_of (loadingPromises t) k")
        case None2: None
        with None a4 b4 show ?thesis by simp
      next
        case (Some p)
        then have "map_of (loadingPromises u) k = Some p" by (rule b3)
        with Some None a4 b4 show ?thesis by simp
      qed
    qed
  qed
qed

lemma sharesLoad_lazyLoad:
  assumes ck: "map_of (moduleCache s) k = None"
  shows "sharesLoad k s (snd (lazyLoad k' f s))"
proof (cases rule: lazyLoad_cases[of s k' f])
  case (hit m)
  with ck have ne: "k' \<noteq> k" by auto
  have e: "snd (lazyLoad k' f s) = s\<lparr>requests := requests s @ [(k', Value m)]\<rparr>"
    using hit by simp
  show ?thesis unfolding e
    by (rule sharesLoadI[where d = "[(k', Value m)]"]) (use ck ne in \<open>auto simp: invocations_def\<close>)
next
  case (join p)
  have e: "snd (lazyLoad k' f s) = s\<lparr>requests := requests s @ [(k', Follows p)]\<rparr>"
    using join by simp
  show ?thesis unfolding e
    by (rule sharesLoadI[where d = "[(k', Follows p)]"])
      (use ck join(2) in \<open>auto simp: invocations_def\<close>)
next
  case start
  have e: "snd (lazyLoad k' f s) =
      s\<lparr>importCalls := importCalls s @ [(k', f)],
        promises := promises s @ [(k', Pending)],
        loadingPromises := AList.update k' (length (promises s)) (loadingPromises s),
        requests := requests s @ [(k', Follows (length (promises s)))]\<rparr>"
    using start by simp
  show ?thesis unfolding e
    by (rule sharesLoadI[where d = "[(k', Follows (length (promises s)))]"])
      (use ck start(2) in \<open>auto simp: invocations_def update_conv'\<close>)
qed

lemma sharesLoad_callLoader:
  assumes ck: "map_of (moduleCache s) k = None"
  shows "sharesLoad k s (callLoader ld s)"
  using sharesLoad_lazyLoad[OF ck, of "moduleName ld" "importOf ld"]
  by (rule sharesLoad_cong) (simp_all add: callLoader_frame)

lemma sharesLoad_cacheD: "sharesLoad k s s' \<Longrightarrow> map_of (moduleCache s') k = None"
  by (simp add: sharesLoad_def)

lemma sharesLoad_preloadCase:
  "map_of (moduleCache s) k = None \<Longrightarrow> sharesLoad k s (preloadCase md s)"
  by (simp add: preloadCase_def loadMermaid_def loadKaTeX_def sharesLoad_callLoader sharesLoad_refl)

lemma sharesLoad_fold_preloadCase:
  "map_of (moduleCache s) k = None \<Longrightarrow> sharesLoad k s (fold preloadCase modules s)"
proof (induction modules arbitrary: s)
  case Nil
  then show ?case by (simp add: sharesLoad_refl)
next
  case (Cons md modules)
  have 1: "sharesLoad k s (preloadCase md s)" using Cons.prems by (rule sharesLoad_preloadCase)
  then have "map_of (moduleCache (preloadCase md s)) k = None" by (rule sharesLoad_cacheD)
  then have "sharesLoad k (preloadCase md s) (fold preloadCase modules (preloadCase md s))"
    by (rule Cons.IH)
  with 1 show ?case by (simp add: sharesLoad_trans)
qed

lemma sharesLoad_runIdleCallback:
  assumes ck: "map_of (moduleCache s) k = None"
  shows "sharesLoad k s (runIdleCallback i s)"
proof (cases "i < length (idleCallbacks s)")
  case True
  let ?t = "s\<lparr>idleCallbacks := remove_nth i (idleCallbacks s)\<rparr>"
  have 1: "sharesLoad k s ?t" using ck by (rule sharesLoad_same) simp_all
  have "map_of (moduleCache ?t) k = None" using ck by simp
  then have "sharesLoad k ?t (fold preloadCase (snd (idleCallbacks s ! i)) ?t)"
    by (rule sharesLoad_fold_preloadCase)
  with 1 have "sharesLoad k s (fold preloadCase (snd (idleCallbacks s ! i)) ?t)"
    by (rule sharesLoad_trans)
  with True show ?thesis by (simp add: runIdleCallback_def idleCallbackBody_def)
next
  case False
  with ck show ?thesis by (simp add: runIdleCallback_def sharesLoad_refl)
qed

lemma sharesLoad_onFulfilled:
  assumes ck: "map_of (moduleCache s) k = None" and ne: "fst (promises s ! p) \<noteq> k"
  shows "sharesLoad k s (onFulfilled p m s)"
  by (rule sharesLoadI[where d = "[]"])
    (use ck ne in \<open>auto simp: onFulfilled_def Let_def update_conv' invocations_def\<close>)

lemma sharesLoad_onRejected:
  assumes ck: "map_of (moduleCache s) k = None" and ne: "fst (promises s ! p) \<noteq> k"
  shows "sharesLoad k s (onRejected p e s)"
  by (rule sharesLoadI[where d = "[]"])
    (use ck ne in \<open>auto simp: onRejected_def Let_def invocations_def\<close>)

lemma sharesLoad_step:
  assumes ck: "map_of (moduleCache s) k = None" and ns: "\<not> settles k s e"
  shows "sharesLoad k s (step e s)"
proof (cases e)
  case (Call ld)
  with ck show ?thesis by (simp add: sharesLoad_callLoader)
next
  case (ImportFulfils p m)
  with ck ns show ?thesis
    by (cases "isPending s p") (simp_all add: inFlight_def sharesLoad_onFulfilled sharesLoad_refl)
next
  case (ImportRejects p e)
  with ck ns show ?thesis
    by (cases "isPending s p") (simp_all add: inFlight_def sharesLoad_onRejected sharesLoad_refl)
next
  case (Resume i)
  with ck show ?thesis by (simp add: sharesLoad_same resume_frame)
next
  case (Preload modules)
  with ck show ?thesis by (simp add: sharesLoad_same preloadInBackground_def)
next
  case (Idle i)
  with ck show ?thesis by (simp add: sharesLoad_runIdleCallback)
next
  case (ResumeInitializeThrows i)
  with ck show ?thesis by (simp add: sharesLoad_same resume_frame)
qed

lemma sharesLoad_run:
  "map_of (moduleCache s) k = None \<Longrightarrow> concurrent k s evs \<Longrightarrow> sharesLoad k s (run s evs)"
proof (induction evs arbitrary: s)
  case Nil
  then show ?case by (simp add: run_def sharesLoad_refl)
next
  case (Cons e evs)
  from Cons.prems have 1: "sharesLoad k s (step e s)" by (intro sharesLoad_step) simp_all
  then have "map_of (moduleCache (step e s)) k = None" by (rule sharesLoad_cacheD)
  with Cons.prems have "sharesLoad k (step e s) (run (step e s) evs)"
    by (intro Cons.IH) simp_all
  with 1 have "sharesLoad k s (run (step e s) evs)" by (rule sharesLoad_trans)
  then show ?case by (simp add: run_def)
qed


subsection \<open>A cached key is not loaded again\<close>

lemma invocations_lazyLoad_cached:
  assumes "map_of (moduleCache s) k = Some m"
  shows "invocations (snd (lazyLoad k' f s)) k = invocations s k"
  using assms by (cases rule: lazyLoad_cases[of s k' f]) (auto simp: invocations_def)

lemma invocations_callLoader_cached:
  "map_of (moduleCache s) k = Some m \<Longrightarrow> invocations (callLoader ld s) k = invocations s k"
  using invocations_lazyLoad_cached[of s k m "moduleName ld" "importOf ld"]
  by (simp add: invocations_def callLoader_frame)

lemma invocations_preloadCase_cached:
  "map_of (moduleCache s) k = Some m \<Longrightarrow> invocations (preloadCase md s) k = invocations s k"
  by (simp add: preloadCase_def loadMermaid_def loadKaTeX_def invocations_callLoader_cached)

lemma invocations_fold_preloadCase_cached:
  "map_of (moduleCache s) k = Some m \<Longrightarrow>
   invocations (fold preloadCase modules s) k = invocations s k"
proof (induction modules arbitrary: s)
  case Nil
  show ?case by simp
next
  case (Cons md modules)
  have "map_of (moduleCache (preloadCase md s)) k = Some m"
    using keeps_preloadCase Cons.prems by (rule keeps_cacheD)
  then have "invocations (fold preloadCase modules (preloadCase md s)) k =
      invocations (preloadCase md s) k" by (rule Cons.IH)
  with Cons.prems show ?case by (simp add: invocations_preloadCase_cached)
qed

lemma invocations_step_cached:
  assumes c: "map_of (moduleCache s) k = Some m"
  shows "invocations (step e s) k = invocations s k"
proof (cases e)
  case (Call ld)
  with c show ?thesis by (simp add: invocations_callLoader_cached)
next
  case (ImportFulfils p m)
  then show ?thesis by (simp add: invocations_def onFulfilled_def Let_def)
next
  case (ImportRejects p e)
  then show ?thesis by (simp add: invocations_def onRejected_def Let_def)
next
  case (Resume i)
  then show ?thesis by (simp add: invocations_def resume_frame)
next
  case (Preload modules)
  then show ?thesis by (simp add: invocations_def preloadInBackground_def)
next
  case (Idle i)
  have "invocations (fold preloadCase (snd (idleCallbacks s ! i))
            (s\<lparr>idleCallbacks := remove_nth i (idleCallbacks s)\<rparr>)) k =
        invocations (s\<lparr>idleCallbacks := remove_nth i (idleCallbacks s)\<rparr>) k"
    using c by (intro invocations_fold_preloadCase_cached) simp
  with Idle show ?thesis
    by (simp add: runIdleCallback_def idleCallbackBody_def invocations_def)
next
  case (ResumeInitializeThrows i)
  then show ?thesis by (simp add: invocations_def resume_frame)
qed

lemma invocations_run_cached:
  "wf s \<Longrightarrow> map_of (moduleCache s) k = Some m \<Longrightarrow> invocations (run s evs) k = invocations s k"
proof (induction evs arbitrary: s)
  case Nil
  show ?case by (simp add: run_def)
next
  case (Cons e evs)
  have "map_of (moduleCache (step e s)) k = Some m"
    using keeps_step[OF Cons.prems(1)] Cons.prems(2) by (rule keeps_cacheD)
  then have "invocations (run (step e s) evs) k = invocations (step e s) k"
    using Cons.prems(1) by (intro Cons.IH wf_step)
  with Cons.prems(2) show ?case by (simp add: run_def invocations_step_cached)
qed


subsection \<open>The idle callback\<close>

lemma fold_preloadCase_calls:
  "fold preloadCase modules s = fold step (map Call (preloadTargets modules)) s"
  by (induction modules arbitrary: s)
    (simp_all add: preloadCase_def loadMermaid_def loadKaTeX_def)

lemma idleCallbacks_callLoader: "idleCallbacks (callLoader ld s) = idleCallbacks s"
  by (simp add: callLoader_frame lazyLoad_frame)

lemma idleCallbacks_fold_preloadCase:
  "idleCallbacks (fold preloadCase modules s) = idleCallbacks s"
  by (induction modules arbitrary: s)
    (simp_all add: preloadCase_def loadMermaid_def loadKaTeX_def idleCallbacks_callLoader)

lemma present_lazyLoad_self: "present (snd (lazyLoad k f s)) k"
  by (cases rule: lazyLoad_cases[of s k f]) (simp_all add: present_def update_conv')

lemma present_lazyLoad: "present s k \<Longrightarrow> present (snd (lazyLoad k' f s)) k"
  by (cases rule: lazyLoad_cases[of s k' f]) (auto simp: present_def update_conv')

lemma present_cong:
  "moduleCache u = moduleCache t \<Longrightarrow> loadingPromises u = loadingPromises t \<Longrightarrow>
   present u k = present t k"
  by (simp add: present_def)

lemma present_callLoader_self: "present (callLoader ld s) (moduleName ld)"
  using present_lazyLoad_self[of "moduleName ld" "importOf ld" s]
    present_cong[of "callLoader ld s" "snd (lazyLoad (moduleName ld) (importOf ld) s)"]
  by (simp add: callLoader_frame)

lemma present_callLoader: "present s k \<Longrightarrow> present (callLoader ld s) k"
  using present_lazyLoad[of s k "moduleName ld" "importOf ld"]
    present_cong[of "callLoader ld s" "snd (lazyLoad (moduleName ld) (importOf ld) s)"]
  by (simp add: callLoader_frame)

lemma present_preloadCase: "present s k \<Longrightarrow> present (preloadCase md s) k"
  by (simp add: preloadCase_def loadMermaid_def loadKaTeX_def present_callLoader)

lemma present_fold_preloadCase: "present s k \<Longrightarrow> present (fold preloadCase modules s) k"
  by (induction modules arbitrary: s) (simp_all add: present_preloadCase)

lemma present_preloadCase_self:
  "md = ''mermaid'' \<or> md = ''katex'' \<Longrightarrow> present (preloadCase md s) md"
  using present_callLoader_self[of Mermaid s] present_callLoader_self[of KaTeX s]
  by (auto simp: preloadCase_def loadMermaid_def loadKaTeX_def)

lemma present_after_fold:
  "k \<in> set modules \<Longrightarrow> k = ''mermaid'' \<or> k = ''katex'' \<Longrightarrow>
   present (fold preloadCase modules s) k"
proof (induction modules arbitrary: s)
  case Nil
  then show ?case by simp
next
  case (Cons md modules)
  show ?case
  proof (cases "k = md")
    case True
    with Cons.prems have "present (preloadCase md s) k" by (simp add: present_preloadCase_self)
    then have "present (fold preloadCase modules (preloadCase md s)) k"
      by (rule present_fold_preloadCase)
    then show ?thesis by simp
  next
    case False
    with Cons.prems have "k \<in> set modules" by simp
    then have "present (fold preloadCase modules (preloadCase md s)) k"
      using Cons.prems(2) by (rule Cons.IH)
    then show ?thesis by simp
  qed
qed

lemma present_status:
  "present s k \<longleftrightarrow>
   k \<in> set (loaded (getLoadingStatus s)) \<union> set (loading (getLoadingStatus s))"
  by (auto simp: present_def getLoadingStatus_def map_of_eq_None_iff)


subsection \<open>A settled promise keeps its outcome\<close>

lemma outcome_after_fulfil:
  assumes w: "wf s" and p: "isPending s p"
  shows "outcome (run (step (ImportFulfils p m) s) later) (Follows p) = Some (Inr m)"
proof -
  let ?s1 = "onFulfilled p m s"
  let ?s2 = "run ?s1 later"
  note k = pending_key[OF p]
  have w1: "wf ?s1" using w p by (rule wf_onFulfilled)
  have a: "p < length (promises ?s1)" "promises ?s1 ! p = (fst (promises s ! p), Fulfilled m)"
    using k(1) by (simp_all add: onFulfilled_def Let_def)
  then have "snd (promises ?s1 ! p) \<noteq> Pending" by simp
  with keeps_run[OF w1, of later] a(1)
  have "p < length (promises ?s2) \<and> promises ?s2 ! p = promises ?s1 ! p"
    by (rule keeps_promiseD)
  with a(2) have "outcome ?s2 (Follows p) = Some (Inr m)" by (simp add: outcome_def)
  with p show ?thesis by simp
qed

lemma outcome_after_reject:
  assumes w: "wf s" and p: "isPending s p"
  shows "outcome (run (step (ImportRejects p e) s) later) (Follows p) = Some (Inl e)"
proof -
  let ?s1 = "onRejected p e s"
  let ?s2 = "run ?s1 later"
  note k = pending_key[OF p]
  have w1: "wf ?s1" using w p by (rule wf_onRejected)
  have a: "p < length (promises ?s1)" "promises ?s1 ! p = (fst (promises s ! p), Rejected e)"
    using k(1) by (simp_all add: onRejected_def Let_def)
  then have "snd (promises ?s1 ! p) \<noteq> Pending" by simp
  with keeps_run[OF w1, of later] a(1)
  have "p < length (promises ?s2) \<and> promises ?s2 ! p = promises ?s1 ! p"
    by (rule keeps_promiseD)
  with a(2) have "outcome ?s2 (Follows p) = Some (Inl e)" by (simp add: outcome_def)
  with p show ?thesis by simp
qed


subsection \<open>Calls of initialize\<close>

lemma initializeCalls_callLoader: "initializeCalls (callLoader ld s) = initializeCalls s"
  by (simp add: callLoader_def lazyLoad_frame split: prod.splits)
    (metis lazyLoad_frame(3) snd_conv)

lemma initializeCalls_fold_preloadCase:
  "initializeCalls (fold preloadCase modules s) = initializeCalls s"
  by (induction modules arbitrary: s)
    (simp_all add: preloadCase_def loadMermaid_def loadKaTeX_def initializeCalls_callLoader)

lemma returned_afterAwait:
  "list_all (\<lambda>c. \<not> snd c) (initializeCalls s) \<Longrightarrow>
   list_all (\<lambda>c. \<not> snd c) (initializeCalls (afterAwait False ld m s))"
  by (cases ld) simp_all

lemma returned_resume:
  "list_all (\<lambda>c. \<not> snd c) (initializeCalls s) \<Longrightarrow>
   list_all (\<lambda>c. \<not> snd c) (initializeCalls (resume False i s))"
  by (simp add: resume_def returned_afterAwait split: prod.splits option.splits sum.splits)

lemma returned_step:
  assumes "\<not> initializeThrows e" "list_all (\<lambda>c. \<not> snd c) (initializeCalls s)"
  shows "list_all (\<lambda>c. \<not> snd c) (initializeCalls (step e s))"
proof (cases e)
  case (Call ld)
  with assms show ?thesis by (simp add: initializeCalls_callLoader)
next
  case (ImportFulfils p m)
  with assms show ?thesis by (simp add: onFulfilled_def Let_def)
next
  case (ImportRejects p e)
  with assms show ?thesis by (simp add: onRejected_def Let_def)
next
  case (Resume i)
  with assms show ?thesis by (simp add: returned_resume)
next
  case (Preload modules)
  with assms show ?thesis by (simp add: preloadInBackground_def)
next
  case (Idle i)
  with assms show ?thesis
    by (simp add: runIdleCallback_def idleCallbackBody_def initializeCalls_fold_preloadCase)
next
  case (ResumeInitializeThrows i)
  with assms show ?thesis by simp
qed

lemma returned_run:
  "list_all (\<lambda>e. \<not> initializeThrows e) evs \<Longrightarrow>
   list_all (\<lambda>c. \<not> snd c) (initializeCalls s) \<Longrightarrow>
   list_all (\<lambda>c. \<not> snd c) (initializeCalls (run s evs))"
  unfolding run_def by (induction evs arbitrary: s) (simp_all add: returned_step)

lemma butlast_all_threw:
  assumes "list_all snd (butlast xs)" "list_all (\<lambda>c. \<not> snd c) xs"
  shows "length xs \<le> 1"
proof (cases "butlast xs")
  case Nil
  then show ?thesis by (cases xs) (auto split: if_splits)
next
  case (Cons a ys)
  then have "a \<in> set (butlast xs)" by simp
  then have "a \<in> set xs" by (rule in_set_butlastD)
  with assms \<open>a \<in> set (butlast xs)\<close> show ?thesis by (auto simp: list_all_iff)
qed

subsection \<open>What the status lists show\<close>

lemma loading_iff:
  "k \<in> set (loading (getLoadingStatus s)) \<longleftrightarrow> map_of (loadingPromises s) k \<noteq> None"
  by (simp add: getLoadingStatus_def map_of_eq_None_iff)

lemma loaded_iff:
  "k \<in> set (loaded (getLoadingStatus s)) \<longleftrightarrow> map_of (moduleCache s) k \<noteq> None"
  by (simp add: getLoadingStatus_def map_of_eq_None_iff)

lemma wf_not_both:
  assumes "wf s" "map_of (moduleCache s) k = Some m"
  shows "map_of (loadingPromises s) k = None"
proof (cases "map_of (loadingPromises s) k")
  case None
  then show ?thesis .
next
  case (Some p)
  from assms(1) have "wfm (moduleCache s) (loadingPromises s) (promises s)" by (simp add: wf_def)
  from wfm_loadingD[OF this Some] assms(2) show ?thesis by simp
qed

lemma inFlight_maps:
  assumes w: "wf s" and f: "inFlight s k q"
  shows "map_of (loadingPromises s) k = Some q" "map_of (moduleCache s) k = None"
proof -
  from w have wm: "wfm (moduleCache s) (loadingPromises s) (promises s)" by (simp add: wf_def)
  from f show l: "map_of (loadingPromises s) k = Some q"
    using wfm_pendingD[OF wm] by (simp add: inFlight_iff)
  from wfm_loadingD[OF wm l] show "map_of (moduleCache s) k = None" by simp
qed

lemma status_started:
  assumes "map_of (moduleCache s) k = None" "map_of (loadingPromises s) k = None"
  shows "k \<notin> set (loading (getLoadingStatus s)) \<and>
         k \<in> set (loading (getLoadingStatus (snd (lazyLoad k f s)))) \<and>
         k \<notin> set (loaded (getLoadingStatus (snd (lazyLoad k f s))))"
  using assms unfolding loading_iff loaded_iff
  by (simp add: lazyLoad_def Let_def update_conv')

lemma status_during:
  assumes w: "wf s" and f: "inFlight s k q" and c: "concurrent k s evs"
  shows "k \<in> set (loading (getLoadingStatus (run s evs))) \<and>
         k \<notin> set (loaded (getLoadingStatus (run s evs)))"
proof -
  note m = inFlight_maps[OF w f]
  have "sharesLoad k s (run s evs)" using m(2) c by (rule sharesLoad_run)
  with m(1) have "map_of (moduleCache (run s evs)) k = None"
    "map_of (loadingPromises (run s evs)) k = Some q"
    unfolding sharesLoad_def by blast+
  then show ?thesis unfolding loading_iff loaded_iff by simp
qed

lemma status_fulfilled:
  assumes w: "wf s" and f: "inFlight s k q"
  shows "k \<in> set (loaded (getLoadingStatus (run (step (ImportFulfils q m) s) later))) \<and>
         k \<notin> set (loading (getLoadingStatus (run (step (ImportFulfils q m) s) later)))"
proof -
  from f have p: "isPending s q" "fst (promises s ! q) = k" by (simp_all add: inFlight_def)
  let ?s1 = "onFulfilled q m s"
  have c1: "map_of (moduleCache ?s1) k = Some m"
    using p by (simp add: onFulfilled_def Let_def update_conv')
  have w1: "wf ?s1" using w p(1) by (rule wf_onFulfilled)
  have c: "map_of (moduleCache (run ?s1 later)) k = Some m"
    using keeps_run[OF w1] c1 by (rule keeps_cacheD)
  have "wf (run ?s1 later)" using w1 by (rule wf_run)
  then have "map_of (loadingPromises (run ?s1 later)) k = None" using c by (rule wf_not_both)
  with c p(1) show ?thesis unfolding loading_iff loaded_iff by simp
qed

lemma status_rejected:
  assumes w: "wf s" and f: "inFlight s k q"
  shows "k \<notin> set (loading (getLoadingStatus (step (ImportRejects q e) s))) \<and>
         k \<notin> set (loaded (getLoadingStatus (step (ImportRejects q e) s)))"
proof -
  from f have p: "isPending s q" "fst (promises s ! q) = k" by (simp_all add: inFlight_def)
  note m = inFlight_maps[OF w f]
  show ?thesis unfolding loading_iff loaded_iff
    using p m(2) by (simp add: onRejected_def Let_def delete_conv')
qed


section \<open>The content detectors\<close>

text \<open>
  C6, as stated, fails: the text \<^verbatim>\<open>```diagram\nA->B\n```\<close> has a fence tagged \<^verbatim>\<open>diagram\<close>,
  and the expression of \<^verbatim>\<open>hasMermaidContent\<close> asks for the tag \<^verbatim>\<open>mermaid\<close>: the detector
  returns false on it.
\<close>

theorem hasMermaidContent_diagram_fence_false:
  "\<not> hasMermaidContent ''```diagram\<newline>A->B\<newline>```''"
  by code_simp

text \<open>
  C6, amended: the diagram detector returns true on the text \<^verbatim>\<open>```mermaid\nA->B\n```\<close>, a
  fenced code block tagged \<^verbatim>\<open>mermaid\<close>.
\<close>

theorem hasMermaidContent_mermaid_fence:
  "hasMermaidContent ''```mermaid\<newline>A->B\<newline>```''"
  by code_simp

text \<open>
  C10: a text that contains a dollar sign, then one or more characters none of which is
  a dollar sign or a line feed, then another dollar sign, makes \<^verbatim>\<open>hasKaTeXContent\<close> return
  true, whatever stands before and after; so does prose that names two amounts of money.
\<close>

theorem hasKaTeXContent_dollar_pair:
  assumes "m \<noteq> []" "\<forall>c\<in>set m. c \<noteq> CHR ''$'' \<and> c \<noteq> CHR 0x0A"
  shows "hasKaTeXContent (pre @ ''$'' @ m @ ''$'' @ rest)"
  using regex_test_complete[OF matches_inline[OF assms], of pre rest]
  by (simp add: hasKaTeXContent_def)

theorem hasKaTeXContent_dollar_pair_witness:
  "hasKaTeXContent ''costs $5 and $10 total''"
  using hasKaTeXContent_dollar_pair[of "''5 and ''" "''costs ''" "''10 total''"] by simp

section \<open>The cache and the in-flight tracker\<close>

text \<open>
  C4: in every state of every execution, no key has both a cache entry and a pending
  record; \<^verbatim>\<open>loadingPromises\<close> (and \<^verbatim>\<open>moduleCache\<close>) holds at most one entry for a key, and
  at most one load of a key is in flight.
\<close>

theorem cache_xor_pending:
  assumes "s = run (initial idle link) evs"
  shows "\<not> (map_of (moduleCache s) k \<noteq> None \<and> map_of (loadingPromises s) k \<noteq> None) \<and>
         length (filter (\<lambda>c. fst c = k) (loadingPromises s)) \<le> 1 \<and>
         length (filter (\<lambda>c. fst c = k) (moduleCache s)) \<le> 1 \<and>
         (\<forall>p q. inFlight s k p \<and> inFlight s k q \<longrightarrow> p = q)"
proof -
  have w: "wfm (moduleCache s) (loadingPromises s) (promises s)"
    unfolding assms by (rule wfm_reachable)
  have 1: "\<not> (map_of (moduleCache s) k \<noteq> None \<and> map_of (loadingPromises s) k \<noteq> None)"
  proof
    assume a: "map_of (moduleCache s) k \<noteq> None \<and> map_of (loadingPromises s) k \<noteq> None"
    then obtain p where "map_of (loadingPromises s) k = Some p" by auto
    with w have "map_of (moduleCache s) k = None" by (auto dest: wfm_loadingD)
    with a show False by simp
  qed
  have 2: "length (filter (\<lambda>c. fst c = k) (loadingPromises s)) \<le> 1"
    using wfm_distinctD[OF w] by (intro distinct_count_le1) simp
  have 3: "length (filter (\<lambda>c. fst c = k) (moduleCache s)) \<le> 1"
    using wfm_distinctD[OF w] by (intro distinct_count_le1) simp
  have 4: "p = q" if "inFlight s k p \<and> inFlight s k q" for p q
  proof -
    from that have "map_of (loadingPromises s) k = Some p" "map_of (loadingPromises s) k = Some q"
      using wfm_pendingD[OF w] by (simp_all add: inFlight_iff)
    then show ?thesis by simp
  qed
  from 4 have "\<forall>p q. inFlight s k p \<and> inFlight s k q \<longrightarrow> p = q" by blast
  with 1 2 3 show ?thesis by simp
qed

theorem cache_xor_pending_witness:
  "\<not> (map_of (moduleCache (run (initial True False) [Call Mermaid, Call KaTeX, Call Mermaid, ImportFulfils 0 7])) ''mermaid'' \<noteq> None \<and>
      map_of (loadingPromises (run (initial True False) [Call Mermaid, Call KaTeX, Call Mermaid, ImportFulfils 0 7])) ''mermaid'' \<noteq> None) \<and>
   map_of (moduleCache (run (initial True False) [Call Mermaid, Call KaTeX, Call Mermaid, ImportFulfils 0 7])) ''mermaid'' = Some 7 \<and>
   map_of (loadingPromises (run (initial True False) [Call Mermaid, Call KaTeX, Call Mermaid, ImportFulfils 0 7])) ''katex'' = Some 1"
proof -
  let ?s = "run (initial True False) [Call Mermaid, Call KaTeX, Call Mermaid, ImportFulfils 0 7]"
  have a: "map_of (moduleCache ?s) ''mermaid'' = Some 7" by code_simp
  have b: "map_of (loadingPromises ?s) ''katex'' = Some 1" by code_simp
  show ?thesis using cache_xor_pending[OF refl, of True False "[Call Mermaid, Call KaTeX, Call Mermaid, ImportFulfils 0 7]" "''mermaid''"] a b
    by blast
qed

text \<open>
  C8: for every key \<^verbatim>\<open>moduleCache.set\<close> is called at most once in an execution, every call
  stores the module of a load that succeeded, and an entry of the cache stays, with its
  value, in every state that follows.
\<close>

theorem cache_written_once:
  assumes "s = run (initial idle link) evs"
  shows "cacheWrites s k \<le> 1 \<and>
         (\<forall>c\<in>set (cacheSets s).
            \<exists>p. p < length (promises s) \<and> promises s ! p = (fst c, Fulfilled (snd c))) \<and>
         (map_of (moduleCache s) k = Some m \<longrightarrow>
            (\<forall>later. map_of (moduleCache (run s later)) k = Some m))"
proof -
  have wf: "wf s" unfolding assms by (rule wf_reachable)
  then have w: "wfm (moduleCache s) (loadingPromises s) (promises s)"
    and cs: "cacheSets s = moduleCache s" by (simp_all add: wf_def)
  have 1: "cacheWrites s k \<le> 1"
    unfolding cacheWrites_def cs using wfm_distinctD[OF w] by (intro distinct_count_le1) simp
  have 2: "\<exists>p. p < length (promises s) \<and> promises s ! p = (fst c, Fulfilled (snd c))"
    if "c \<in> set (cacheSets s)" for c
  proof -
    from that have "(fst c, snd c) \<in> set (moduleCache s)" by (simp add: cs)
    with wfm_distinctD[OF w] have "map_of (moduleCache s) (fst c) = Some (snd c)"
      by (intro map_of_is_SomeI) simp_all
    then show ?thesis by (rule wfm_cachedD[OF w])
  qed
  have 3: "map_of (moduleCache (run s later)) k = Some m"
    if "map_of (moduleCache s) k = Some m" for later
    using keeps_run[OF wf, of later] that by (rule keeps_cacheD)
  show ?thesis using 1 2 3 by blast
qed

theorem cache_written_once_witness:
  "map_of (moduleCache (run (initial True False) [Call Mermaid, ImportFulfils 0 7]))
     ''mermaid'' = Some 7 \<and>
   cacheWrites (run (initial True False) [Call Mermaid, ImportFulfils 0 7]) ''mermaid'' \<le> 1 \<and>
   map_of (moduleCache (run (run (initial True False) [Call Mermaid, ImportFulfils 0 7])
     [Call Mermaid, ImportFulfils 0 9, Call Docx, ImportFulfils 1 9, Resume 0]))
     ''mermaid'' = Some 7"
proof -
  let ?s = "run (initial True False) [Call Mermaid, ImportFulfils 0 7]"
  have h: "map_of (moduleCache ?s) ''mermaid'' = Some 7" by code_simp
  note t = cache_written_once[where idle = True and link = False and k = "''mermaid''" and
      m = 7 and evs = "[Call Mermaid, ImportFulfils 0 7]", OF refl]
  from t have 1: "cacheWrites ?s ''mermaid'' \<le> 1" by blast
  from t h have 2: "map_of (moduleCache (run ?s
      [Call Mermaid, ImportFulfils 0 9, Call Docx, ImportFulfils 1 9, Resume 0]))
      ''mermaid'' = Some 7" by blast
  show ?thesis using h 1 2 by blast
qed

text \<open>
  C5: in every state of every execution \<^verbatim>\<open>getLoadingStatus\<close> lists a key under
  \<^verbatim>\<open>loading\<close> exactly when a load of it is in flight (its factory has been called and
  the promise has not settled), under \<^verbatim>\<open>loaded\<close> exactly when a load of it has
  succeeded, never under both; the two lists are the keys of \<^verbatim>\<open>moduleCache\<close> and of
  \<^verbatim>\<open>loadingPromises\<close>, each key once. Along an execution: a key that is neither cached
  nor pending is not listed under \<^verbatim>\<open>loading\<close>, and the call of \<^verbatim>\<open>lazyLoad\<close> that calls its
  factory puts it under \<^verbatim>\<open>loading\<close> and not under \<^verbatim>\<open>loaded\<close>; while its load is in flight
  and does not settle it stays there; once the \<^verbatim>\<open>.then\<close> callback has run with the
  module it is under \<^verbatim>\<open>loaded\<close> and not under \<^verbatim>\<open>loading\<close>, in every later state; once the
  \<^verbatim>\<open>.catch\<close> callback has run it is under neither.
\<close>

theorem status_accuracy:
  assumes "s = run (initial idle link) evs"
  shows "(k \<in> set (loading (getLoadingStatus s)) \<longleftrightarrow> (\<exists>p. inFlight s k p)) \<and>
         (k \<in> set (loaded (getLoadingStatus s)) \<longleftrightarrow>
            (\<exists>p m. p < length (promises s) \<and> promises s ! p = (k, Fulfilled m))) \<and>
         \<not> (k \<in> set (loaded (getLoadingStatus s)) \<and> k \<in> set (loading (getLoadingStatus s))) \<and>
         loaded (getLoadingStatus s) = map fst (moduleCache s) \<and>
         loading (getLoadingStatus s) = map fst (loadingPromises s) \<and>
         distinct (loaded (getLoadingStatus s)) \<and> distinct (loading (getLoadingStatus s)) \<and>
         (map_of (moduleCache s) k = None \<and> map_of (loadingPromises s) k = None \<longrightarrow>
            k \<notin> set (loading (getLoadingStatus s)) \<and>
            k \<in> set (loading (getLoadingStatus (snd (lazyLoad k f s)))) \<and>
            k \<notin> set (loaded (getLoadingStatus (snd (lazyLoad k f s))))) \<and>
         (inFlight s k q \<longrightarrow>
            (\<forall>evs'. concurrent k s evs' \<longrightarrow>
               k \<in> set (loading (getLoadingStatus (run s evs'))) \<and>
               k \<notin> set (loaded (getLoadingStatus (run s evs')))) \<and>
            (\<forall>m later.
               k \<in> set (loaded (getLoadingStatus (run (step (ImportFulfils q m) s) later))) \<and>
               k \<notin> set (loading (getLoadingStatus (run (step (ImportFulfils q m) s) later)))) \<and>
            (\<forall>e.
               k \<notin> set (loading (getLoadingStatus (step (ImportRejects q e) s))) \<and>
               k \<notin> set (loaded (getLoadingStatus (step (ImportRejects q e) s)))))"
proof -
  have wf: "wf s" unfolding assms by (rule wf_reachable)
  have w: "wfm (moduleCache s) (loadingPromises s) (promises s)"
    unfolding assms by (rule wfm_reachable)
  have 1: "k \<in> set (loading (getLoadingStatus s)) \<longleftrightarrow> (\<exists>p. inFlight s k p)"
    unfolding loading_iff
  proof
    assume "map_of (loadingPromises s) k \<noteq> None"
    then obtain p where "map_of (loadingPromises s) k = Some p" by auto
    then have "inFlight s k p" using wfm_loadingD[OF w] by (simp add: inFlight_iff)
    then show "\<exists>p. inFlight s k p" ..
  next
    assume "\<exists>p. inFlight s k p"
    then obtain p where "inFlight s k p" ..
    then have "map_of (loadingPromises s) k = Some p"
      using wfm_pendingD[OF w] by (simp add: inFlight_iff)
    then show "map_of (loadingPromises s) k \<noteq> None" by simp
  qed
  have 2: "k \<in> set (loaded (getLoadingStatus s)) \<longleftrightarrow>
      (\<exists>p m. p < length (promises s) \<and> promises s ! p = (k, Fulfilled m))"
    unfolding loaded_iff
  proof
    assume "map_of (moduleCache s) k \<noteq> None"
    then obtain m where "map_of (moduleCache s) k = Some m" by auto
    then obtain p where "p < length (promises s) \<and> promises s ! p = (k, Fulfilled m)"
      using wfm_cachedD[OF w] by blast
    then show "\<exists>p m. p < length (promises s) \<and> promises s ! p = (k, Fulfilled m)" by blast
  next
    assume "\<exists>p m. p < length (promises s) \<and> promises s ! p = (k, Fulfilled m)"
    then obtain p m where "p < length (promises s)" "promises s ! p = (k, Fulfilled m)" by blast
    then have "map_of (moduleCache s) k = Some m" using wfm_fulfilledD[OF w] by blast
    then show "map_of (moduleCache s) k \<noteq> None" by simp
  qed
  have 3: "\<not> (k \<in> set (loaded (getLoadingStatus s)) \<and> k \<in> set (loading (getLoadingStatus s)))"
    unfolding loading_iff loaded_iff
  proof
    assume a: "map_of (moduleCache s) k \<noteq> None \<and> map_of (loadingPromises s) k \<noteq> None"
    then obtain m where "map_of (moduleCache s) k = Some m" by auto
    with wf have "map_of (loadingPromises s) k = None" by (rule wf_not_both)
    with a show False by simp
  qed
  have 4: "loaded (getLoadingStatus s) = map fst (moduleCache s)"
    "loading (getLoadingStatus s) = map fst (loadingPromises s)"
    by (simp_all add: getLoadingStatus_def)
  have 5: "distinct (loaded (getLoadingStatus s))" "distinct (loading (getLoadingStatus s))"
    unfolding 4 using wfm_distinctD[OF w] by simp_all
  have 6: "k \<notin> set (loading (getLoadingStatus s)) \<and>
            k \<in> set (loading (getLoadingStatus (snd (lazyLoad k f s)))) \<and>
            k \<notin> set (loaded (getLoadingStatus (snd (lazyLoad k f s))))"
    if "map_of (moduleCache s) k = None \<and> map_of (loadingPromises s) k = None"
    using that by (intro status_started) simp_all
  have 7: "k \<in> set (loading (getLoadingStatus (run s evs'))) \<and>
           k \<notin> set (loaded (getLoadingStatus (run s evs')))"
    if "inFlight s k q" "concurrent k s evs'" for evs'
    using wf that by (rule status_during)
  have 8: "k \<in> set (loaded (getLoadingStatus (run (step (ImportFulfils q m) s) later))) \<and>
           k \<notin> set (loading (getLoadingStatus (run (step (ImportFulfils q m) s) later)))"
    if "inFlight s k q" for m later
    using wf that by (rule status_fulfilled)
  have 9: "k \<notin> set (loading (getLoadingStatus (step (ImportRejects q e) s))) \<and>
           k \<notin> set (loaded (getLoadingStatus (step (ImportRejects q e) s)))"
    if "inFlight s k q" for e
    using wf that by (rule status_rejected)
  from 7 8 9 have 10: "inFlight s k q \<longrightarrow>
            (\<forall>evs'. concurrent k s evs' \<longrightarrow>
               k \<in> set (loading (getLoadingStatus (run s evs'))) \<and>
               k \<notin> set (loaded (getLoadingStatus (run s evs')))) \<and>
            (\<forall>m later.
               k \<in> set (loaded (getLoadingStatus (run (step (ImportFulfils q m) s) later))) \<and>
               k \<notin> set (loading (getLoadingStatus (run (step (ImportFulfils q m) s) later)))) \<and>
            (\<forall>e.
               k \<notin> set (loading (getLoadingStatus (step (ImportRejects q e) s))) \<and>
               k \<notin> set (loaded (getLoadingStatus (step (ImportRejects q e) s))))"
    by blast
  from 6 have 11: "map_of (moduleCache s) k = None \<and> map_of (loadingPromises s) k = None \<longrightarrow>
            k \<notin> set (loading (getLoadingStatus s)) \<and>
            k \<in> set (loading (getLoadingStatus (snd (lazyLoad k f s)))) \<and>
            k \<notin> set (loaded (getLoadingStatus (snd (lazyLoad k f s))))"
    by blast
  show ?thesis
    apply (intro conjI)
    apply (rule 1)
    apply (rule 2)
    apply (rule 3)
    apply (rule 4(1))
    apply (rule 4(2))
    apply (rule 5(1))
    apply (rule 5(2))
    apply (rule 11)
    apply (rule 10)
    done
qed

theorem status_accuracy_witness:
  "inFlight (run (initial True False) [Call Mermaid, Call KaTeX, Call Mermaid, ImportFulfils 0 7])
     ''katex'' 1 \<and>
   ''katex'' \<in> set (loading (getLoadingStatus
     (run (initial True False) [Call Mermaid, Call KaTeX, Call Mermaid, ImportFulfils 0 7]))) \<and>
   ''katex'' \<notin> set (loaded (getLoadingStatus
     (run (initial True False) [Call Mermaid, Call KaTeX, Call Mermaid, ImportFulfils 0 7]))) \<and>
   concurrent ''katex''
     (run (initial True False) [Call Mermaid, Call KaTeX, Call Mermaid, ImportFulfils 0 7])
     [Call KaTeX, Resume 0, Call Docx] \<and>
   ''katex'' \<in> set (loading (getLoadingStatus
     (run (run (initial True False) [Call Mermaid, Call KaTeX, Call Mermaid, ImportFulfils 0 7])
        [Call KaTeX, Resume 0, Call Docx]))) \<and>
   ''katex'' \<in> set (loaded (getLoadingStatus
     (run (step (ImportFulfils 1 9)
        (run (initial True False) [Call Mermaid, Call KaTeX, Call Mermaid, ImportFulfils 0 7]))
        [Call KaTeX, Resume 1]))) \<and>
   ''katex'' \<notin> set (loading (getLoadingStatus
     (run (step (ImportFulfils 1 9)
        (run (initial True False) [Call Mermaid, Call KaTeX, Call Mermaid, ImportFulfils 0 7]))
        [Call KaTeX, Resume 1]))) \<and>
   ''katex'' \<notin> set (loading (getLoadingStatus
     (step (ImportRejects 1 3)
        (run (initial True False) [Call Mermaid, Call KaTeX, Call Mermaid, ImportFulfils 0 7])))) \<and>
   map_of (moduleCache (initial True False)) ''katex'' = None \<and>
   map_of (loadingPromises (initial True False)) ''katex'' = None \<and>
   ''katex'' \<in> set (loading (getLoadingStatus
     (snd (lazyLoad ''katex'' ''katex'' (initial True False)))))"
proof -
  let ?s = "run (initial True False) [Call Mermaid, Call KaTeX, Call Mermaid, ImportFulfils 0 7]"
  have h: "inFlight ?s ''katex'' 1" by code_simp
  have c: "concurrent ''katex'' ?s [Call KaTeX, Resume 0, Call Docx]" by code_simp
  note t = status_accuracy[where idle = True and link = False and k = "''katex''" and q = 1 and
      f = "''katex''" and
      evs = "[Call Mermaid, Call KaTeX, Call Mermaid, ImportFulfils 0 7]", OF refl]
  from t h have 1: "''katex'' \<in> set (loading (getLoadingStatus ?s))" by blast
  with t have 2: "''katex'' \<notin> set (loaded (getLoadingStatus ?s))" by blast
  from t h c have 3: "''katex'' \<in> set (loading (getLoadingStatus
      (run ?s [Call KaTeX, Resume 0, Call Docx])))" by blast
  from t h have 4: "''katex'' \<in> set (loaded (getLoadingStatus
      (run (step (ImportFulfils 1 9) ?s) [Call KaTeX, Resume 1]))) \<and>
    ''katex'' \<notin> set (loading (getLoadingStatus
      (run (step (ImportFulfils 1 9) ?s) [Call KaTeX, Resume 1])))" by blast
  from t h have 5: "''katex'' \<notin> set (loading (getLoadingStatus (step (ImportRejects 1 3) ?s)))"
    by blast
  have r: "initial True False = run (initial True False) []" by (simp add: run_def)
  have u: "map_of (moduleCache (initial True False)) ''katex'' = None"
    "map_of (loadingPromises (initial True False)) ''katex'' = None"
    by (simp_all add: initial_def)
  note t0 = status_accuracy[where idle = True and link = False and k = "''katex''" and
      f = "''katex''" and evs = "[]", OF r]
  from t0 u have 6: "''katex'' \<in> set (loading (getLoadingStatus
      (snd (lazyLoad ''katex'' ''katex'' (initial True False)))))" by blast
  show ?thesis using h c 1 2 3 4 5 6 u by blast
qed

section \<open>Requests\<close>

text \<open>
  C1: take a reachable state in which key \<open>k\<close> has no cache entry and any stretch of
  events after it in which no load of \<open>k\<close> settles: calls of the loaders by callers,
  registrations and runs of idle callbacks, resumptions, settlements of other keys. If
  \<^verbatim>\<open>lazyLoad\<close> was called for \<open>k\<close> in the stretch, N times say, then the factory of \<open>k\<close> was
  called exactly once for all of them (in the stretch if no load was in flight at its
  start, before it otherwise), and all N calls returned the same promise, which is
  pending at the end. When that load then succeeds with a module, all N callers have that
  module as their outcome from then on, and when it fails with a reason, all N have that
  reason. Calls made by the idle callback are calls of the same loaders, so they count
  among the N.
\<close>

theorem concurrent_requests_share_one_load:
  assumes "s = run (initial idle link) pre"
    and "map_of (moduleCache s) k = None"
    and "concurrent k s evs"
    and "s' = run s evs"
    and "requestsSince s s' k \<noteq> []"
  shows "invocations s' k =
           invocations s k + (if map_of (loadingPromises s) k = None then 1 else 0) \<and>
         (\<exists>p. inFlight s' k p \<and>
            (\<forall>r\<in>set (requestsSince s s' k). r = Follows p) \<and>
            (\<forall>m later. \<forall>r\<in>set (requestsSince s s' k).
               outcome (run (step (ImportFulfils p m) s') later) r = Some (Inr m)) \<and>
            (\<forall>e later. \<forall>r\<in>set (requestsSince s s' k).
               outcome (run (step (ImportRejects p e) s') later) r = Some (Inl e)))"
proof -
  have "wf s" unfolding assms(1) by (rule wf_reachable)
  then have wf': "wf s'" unfolding assms(4) by (rule wf_run)
  then have w: "wfm (moduleCache s') (loadingPromises s') (promises s')" by (simp add: wf_def)
  have "sharesLoad k s s'" unfolding assms(4) using assms(2,3) by (rule sharesLoad_run)
  then obtain d where
    d: "requests s' = requests s @ d" and
    dk: "\<And>c. c \<in> set d \<Longrightarrow> fst c = k \<Longrightarrow>
           \<exists>p. map_of (loadingPromises s') k = Some p \<and> snd c = Follows p" and
    inv: "invocations s' k = invocations s k +
       (if map_of (loadingPromises s) k = None \<and> map_of (loadingPromises s') k \<noteq> None
        then 1 else 0)"
    unfolding sharesLoad_def by blast
  have rs: "requestsSince s s' k = map snd (filter (\<lambda>c. fst c = k) d)"
    by (simp add: requestsSince_def d)
  with assms(5) obtain c where c: "c \<in> set d" "fst c = k"
    by (auto simp: filter_empty_conv)
  then obtain p where p: "map_of (loadingPromises s') k = Some p" using dk by blast
  have 1: "invocations s' k =
           invocations s k + (if map_of (loadingPromises s) k = None then 1 else 0)"
    using inv p by simp
  have 2: "inFlight s' k p" using wfm_loadingD[OF w p] by (simp add: inFlight_iff)
  then have pe: "isPending s' p" by (simp add: inFlight_def)
  have 3: "r = Follows p" if "r \<in> set (requestsSince s s' k)" for r
  proof -
    from that obtain c where "c \<in> set d" "fst c = k" "r = snd c" by (auto simp: rs)
    with dk[of c] p show ?thesis by auto
  qed
  have 4: "outcome (run (step (ImportFulfils p m) s') later) r = Some (Inr m)"
    if "r \<in> set (requestsSince s s' k)" for r m later
    unfolding 3[OF that] using wf' pe by (rule outcome_after_fulfil)
  have 5: "outcome (run (step (ImportRejects p e) s') later) r = Some (Inl e)"
    if "r \<in> set (requestsSince s s' k)" for r e later
    unfolding 3[OF that] using wf' pe by (rule outcome_after_reject)
  show ?thesis using 1 2 3 4 5 by blast
qed

theorem concurrent_requests_share_one_load_witness:
  "concurrent ''mermaid'' (initial True False)
     [Preload [''mermaid''], Call Mermaid, Idle 0, Call Mermaid, Call KaTeX, ImportRejects 1 4] \<and>
   requestsSince (initial True False)
     (run (initial True False)
        [Preload [''mermaid''], Call Mermaid, Idle 0, Call Mermaid, Call KaTeX, ImportRejects 1 4])
     ''mermaid'' = [Follows 0, Follows 0, Follows 0] \<and>
   invocations
     (run (initial True False)
        [Preload [''mermaid''], Call Mermaid, Idle 0, Call Mermaid, Call KaTeX, ImportRejects 1 4])
     ''mermaid'' = 1"
proof -
  let ?evs = "[Preload [''mermaid''], Call Mermaid, Idle 0, Call Mermaid, Call KaTeX,
     ImportRejects 1 4]"
  let ?s = "initial True False"
  have r: "?s = run (initial True False) []" by (simp add: run_def)
  have h1: "map_of (moduleCache ?s) ''mermaid'' = None" by (simp add: initial_def)
  have h2: "concurrent ''mermaid'' ?s ?evs" by code_simp
  have h3: "requestsSince ?s (run ?s ?evs) ''mermaid'' = [Follows 0, Follows 0, Follows 0]"
    by code_simp
  then have h4: "requestsSince ?s (run ?s ?evs) ''mermaid'' \<noteq> []" by simp
  have z: "invocations ?s ''mermaid'' = 0" "map_of (loadingPromises ?s) ''mermaid'' = None"
    by (simp_all add: initial_def invocations_def)
  from concurrent_requests_share_one_load[OF r h1 h2 refl h4]
  have "invocations (run ?s ?evs) ''mermaid'' =
      invocations ?s ''mermaid'' + (if map_of (loadingPromises ?s) ''mermaid'' = None then 1 else 0)"
    by blast
  with z have "invocations (run ?s ?evs) ''mermaid'' = 1" by simp
  with h2 h3 show ?thesis by blast
qed

text \<open>
  C2: once the load of a key has succeeded with module \<open>m\<close>, in every later state a call
  of \<^verbatim>\<open>lazyLoad\<close> for the key returns \<open>m\<close> itself, not a promise to wait for, changes
  nothing but the log of requests, and the factory of the key has not been called since
  the success.
\<close>

theorem memoized_after_success:
  assumes "t = run (initial idle link) pre"
    and "inFlight t k p"
    and "s1 = step (ImportFulfils p m) t"
    and "s = run s1 later"
  shows "lazyLoad k f s = (Value m, s\<lparr>requests := requests s @ [(k, Value m)]\<rparr>) \<and>
         outcome s (fst (lazyLoad k f s)) = Some (Inr m) \<and>
         invocations (snd (lazyLoad k f s)) k = invocations s1 k"
proof -
  have wt: "wf t" unfolding assms(1) by (rule wf_reachable)
  from assms(2) have p: "isPending t p" "fst (promises t ! p) = k" by (simp_all add: inFlight_def)
  have s1: "s1 = onFulfilled p m t" using assms(3) p by simp
  have c1: "map_of (moduleCache s1) k = Some m"
    using p by (simp add: s1 onFulfilled_def Let_def update_conv')
  have w1: "wf s1" unfolding s1 using wt p(1) by (rule wf_onFulfilled)
  have c: "map_of (moduleCache s) k = Some m"
    unfolding assms(4) using keeps_run[OF w1] c1 by (rule keeps_cacheD)
  have 1: "lazyLoad k f s = (Value m, s\<lparr>requests := requests s @ [(k, Value m)]\<rparr>)"
    using c by (simp add: lazyLoad_def)
  have 2: "outcome s (fst (lazyLoad k f s)) = Some (Inr m)"
    by (simp add: 1 outcome_def)
  have "invocations (snd (lazyLoad k f s)) k = invocations s k"
    by (simp add: 1 invocations_def)
  also have "\<dots> = invocations s1 k"
    unfolding assms(4) using w1 c1 by (rule invocations_run_cached)
  finally show ?thesis using 1 2 by simp
qed

theorem memoized_after_success_witness:
  "inFlight (run (initial True False) [Call Mermaid, Call Mermaid]) ''mermaid'' 0 \<and>
   fst (lazyLoad ''mermaid'' ''mermaid''
     (run (step (ImportFulfils 0 7) (run (initial True False) [Call Mermaid, Call Mermaid]))
        [Resume 0, Call KaTeX, Resume 0])) = Value 7 \<and>
   invocations (snd (lazyLoad ''mermaid'' ''mermaid''
     (run (step (ImportFulfils 0 7) (run (initial True False) [Call Mermaid, Call Mermaid]))
        [Resume 0, Call KaTeX, Resume 0]))) ''mermaid'' = 1"
proof -
  let ?t = "run (initial True False) [Call Mermaid, Call Mermaid]"
  let ?s = "run (step (ImportFulfils 0 7) ?t) [Resume 0, Call KaTeX, Resume 0]"
  have h: "inFlight ?t ''mermaid'' 0" by code_simp
  have i: "invocations (step (ImportFulfils 0 7) ?t) ''mermaid'' = 1" by code_simp
  note t = memoized_after_success[where m = 7 and f = "''mermaid''" and
      later = "[Resume 0, Call KaTeX, Resume 0]", OF refl h refl refl]
  from t have a: "lazyLoad ''mermaid'' ''mermaid'' ?s =
      (Value 7, ?s\<lparr>requests := requests ?s @ [(''mermaid'', Value 7)]\<rparr>)" by blast
  have 1: "fst (lazyLoad ''mermaid'' ''mermaid'' ?s) = Value 7"
    by (simp only: a fst_conv)
  from t have b: "invocations (snd (lazyLoad ''mermaid'' ''mermaid'' ?s)) ''mermaid'' =
      invocations (step (ImportFulfils 0 7) ?t) ''mermaid''" by blast
  have 2: "invocations (snd (lazyLoad ''mermaid'' ''mermaid'' ?s)) ''mermaid'' = 1"
    by (simp only: b i)
  show ?thesis using h 1 2 by blast
qed

text \<open>
  C3: when the load of a key that is in flight fails, the state after the \<^verbatim>\<open>.catch\<close>
  callback has no cache entry and no pending record for the key, the cache is as it was
  and the promise is rejected; the next call of \<^verbatim>\<open>lazyLoad\<close> for the key calls the
  factory once more and returns a new promise, now in flight.
\<close>

theorem retry_after_failure:
  assumes "s = run (initial idle link) pre"
    and "inFlight s k p"
    and "s' = step (ImportRejects p e) s"
  shows "map_of (moduleCache s') k = None \<and>
         map_of (loadingPromises s') k = None \<and>
         moduleCache s' = moduleCache s \<and>
         promises s' ! p = (k, Rejected e) \<and>
         fst (lazyLoad k f s') = Follows (length (promises s')) \<and>
         length (promises s') \<noteq> p \<and>
         invocations (snd (lazyLoad k f s')) k = invocations s' k + 1 \<and>
         inFlight (snd (lazyLoad k f s')) k (length (promises s'))"
proof -
  have w: "wf s" unfolding assms(1) by (rule wf_reachable)
  from assms(2) have p: "isPending s p" "fst (promises s ! p) = k" by (simp_all add: inFlight_def)
  note pk = pending_key[OF p(1)]
  have s': "s' = onRejected p e s" using assms(3) p by simp
  have 1: "map_of (moduleCache s') k = None"
    using pending_uncached[OF w p(1)] p(2) by (simp add: s' onRejected_def Let_def)
  have 2: "map_of (loadingPromises s') k = None"
    using p(2) by (simp add: s' onRejected_def Let_def delete_conv')
  have 3: "moduleCache s' = moduleCache s" by (simp add: s' onRejected_def Let_def)
  have 4: "promises s' ! p = (k, Rejected e)"
    using pk(1) p(2) by (simp add: s' onRejected_def Let_def)
  have 5: "length (promises s') \<noteq> p"
    using pk(1) by (simp add: s' onRejected_def Let_def)
  have l: "lazyLoad k f s' =
         (Follows (length (promises s')),
          s'\<lparr>importCalls := importCalls s' @ [(k, f)],
            promises := promises s' @ [(k, Pending)],
            loadingPromises := AList.update k (length (promises s')) (loadingPromises s'),
            requests := requests s' @ [(k, Follows (length (promises s')))]\<rparr>)"
    using 1 2 by (simp add: lazyLoad_def Let_def)
  have 6: "fst (lazyLoad k f s') = Follows (length (promises s'))" by (simp add: l)
  have 7: "invocations (snd (lazyLoad k f s')) k = invocations s' k + 1"
    by (simp add: l invocations_def)
  have 8: "inFlight (snd (lazyLoad k f s')) k (length (promises s'))"
    by (simp add: l inFlight_def isPending_def)
  show ?thesis using 1 2 3 4 5 6 7 8 by blast
qed

theorem retry_after_failure_witness:
  "inFlight (run (initial True False) [Call KaTeX]) ''katex'' 0 \<and>
   map_of (moduleCache (step (ImportRejects 0 3) (run (initial True False) [Call KaTeX])))
     ''katex'' = None \<and>
   map_of (loadingPromises (step (ImportRejects 0 3) (run (initial True False) [Call KaTeX])))
     ''katex'' = None \<and>
   invocations (snd (lazyLoad ''katex'' ''katex''
     (step (ImportRejects 0 3) (run (initial True False) [Call KaTeX])))) ''katex'' = 2"
proof -
  let ?s = "run (initial True False) [Call KaTeX]"
  let ?s' = "step (ImportRejects 0 3) ?s"
  have h: "inFlight ?s ''katex'' 0" by code_simp
  have i: "invocations ?s' ''katex'' = 1" by code_simp
  note t = retry_after_failure[where e = 3 and f = "''katex''", OF refl h refl]
  from t have 1: "map_of (moduleCache ?s') ''katex'' = None" by blast
  from t have 2: "map_of (loadingPromises ?s') ''katex'' = None" by blast
  from t have "invocations (snd (lazyLoad ''katex'' ''katex'' ?s')) ''katex'' =
      invocations ?s' ''katex'' + 1" by blast
  then have 3: "invocations (snd (lazyLoad ''katex'' ''katex'' ?s')) ''katex'' = 2"
    by (simp only: i)
  show ?thesis using h 1 2 3 by blast
qed

section \<open>Initialization of mermaid\<close>

text \<open>
  C9, as stated, fails when a call of \<^verbatim>\<open>initialize\<close> throws: line 60 sets the flag only
  after line 49 has returned, so the flag is still unset when the next call of
  \<^verbatim>\<open>loadMermaid\<close> continues, and \<^verbatim>\<open>initialize\<close> is called a second time.
\<close>

theorem initialize_called_twice:
  "initializeCalls (run (initial True False)
     [Call Mermaid, Call Mermaid, ImportFulfils 0 7, ResumeInitializeThrows 0, Resume 0]) =
     [(7, True), (7, False)] \<and>
   length (initializeCalls (run (initial True False)
     [Call Mermaid, Call Mermaid, ImportFulfils 0 7, ResumeInitializeThrows 0, Resume 0])) = 2"
  by code_simp

text \<open>
  C9, amended: the flag is set when a call of \<^verbatim>\<open>initialize\<close> has returned. In every state
  of every execution at most one call of \<^verbatim>\<open>initialize\<close> has returned and every call but
  the last one threw, so \<^verbatim>\<open>initialize\<close> is not called again once it has returned; the
  modules that carry the flag are those for which a call returned; a loader that
  continues with a module that carries the flag changes nothing; and in an execution in
  which no call of \<^verbatim>\<open>initialize\<close> throws, it is called at most once.
\<close>

theorem initialize_returns_once:
  assumes "s = run (initial idle link) evs"
  shows "length (initialized s) \<le> 1 \<and>
         list_all snd (butlast (initializeCalls s)) \<and>
         initialized s = mermaidInitialized s \<and>
         (m \<in> set (mermaidInitialized s) \<longrightarrow> afterAwait throws Mermaid m s = s) \<and>
         (list_all (\<lambda>e. \<not> initializeThrows e) evs \<longrightarrow> length (initializeCalls s) \<le> 1)"
proof -
  have "wf s" unfolding assms by (rule wf_reachable)
  then have i: "init_ok s" by (simp add: wf_def)
  then have 1: "length (initialized s) \<le> 1" by (auto simp: init_ok_def)
  from i have 2: "list_all snd (butlast (initializeCalls s))" by (simp add: init_ok_def)
  from i have 3: "initialized s = mermaidInitialized s" by (simp add: init_ok_def)
  have 4: "m \<in> set (mermaidInitialized s) \<longrightarrow> afterAwait throws Mermaid m s = s" by simp
  have 5: "length (initializeCalls s) \<le> 1" if "list_all (\<lambda>e. \<not> initializeThrows e) evs"
  proof -
    have "list_all (\<lambda>c. \<not> snd c) (initializeCalls (initial idle link))"
      by (simp add: initial_def)
    with that have "list_all (\<lambda>c. \<not> snd c) (initializeCalls s)"
      unfolding assms by (rule returned_run)
    with 2 show ?thesis by (rule butlast_all_threw)
  qed
  show ?thesis using 1 2 3 4 5 by blast
qed

theorem initialize_returns_once_witness:
  "7 \<in> set (mermaidInitialized (run (initial True False)
     [Call Mermaid, Call Mermaid, ImportFulfils 0 7, Resume 0, Resume 0, Call Mermaid, Resume 0])) \<and>
   list_all (\<lambda>e. \<not> initializeThrows e)
     [Call Mermaid, Call Mermaid, ImportFulfils 0 7, Resume 0, Resume 0, Call Mermaid, Resume 0] \<and>
   length (initializeCalls (run (initial True False)
     [Call Mermaid, Call Mermaid, ImportFulfils 0 7, Resume 0, Resume 0, Call Mermaid, Resume 0])) \<le> 1 \<and>
   afterAwait True Mermaid 7 (run (initial True False)
     [Call Mermaid, Call Mermaid, ImportFulfils 0 7, Resume 0, Resume 0, Call Mermaid, Resume 0]) =
   run (initial True False)
     [Call Mermaid, Call Mermaid, ImportFulfils 0 7, Resume 0, Resume 0, Call Mermaid, Resume 0] \<and>
   initializeCalls (run (initial True False)
     [Call Mermaid, Call Mermaid, ImportFulfils 0 7, ResumeInitializeThrows 0, Resume 0,
      Call Mermaid, Resume 0]) = [(7, True), (7, False)] \<and>
   length (initialized (run (initial True False)
     [Call Mermaid, Call Mermaid, ImportFulfils 0 7, ResumeInitializeThrows 0, Resume 0,
      Call Mermaid, Resume 0])) \<le> 1"
proof -
  let ?evs = "[Call Mermaid, Call Mermaid, ImportFulfils 0 7, Resume 0, Resume 0, Call Mermaid,
     Resume 0]"
  let ?s = "run (initial True False) ?evs"
  let ?evs' = "[Call Mermaid, Call Mermaid, ImportFulfils 0 7, ResumeInitializeThrows 0,
     Resume 0, Call Mermaid, Resume 0]"
  let ?s' = "run (initial True False) ?evs'"
  have h: "7 \<in> set (mermaidInitialized ?s)" by code_simp
  have n: "list_all (\<lambda>e. \<not> initializeThrows e) ?evs" by simp
  have c: "initializeCalls ?s' = [(7, True), (7, False)]" by code_simp
  note t = initialize_returns_once[where idle = True and link = False and m = 7 and
      throws = True and evs = ?evs, OF refl]
  from t n have 1: "length (initializeCalls ?s) \<le> 1" by blast
  from t h have 2: "afterAwait True Mermaid 7 ?s = ?s" by blast
  note t' = initialize_returns_once[where idle = True and link = False and m = 7 and
      throws = True and evs = ?evs', OF refl]
  from t' have 3: "length (initialized ?s') \<le> 1" by blast
  show ?thesis using h n c 1 2 3 by blast
qed

section \<open>Preloading\<close>

text \<open>
  C7, as stated, fails for a key other than \<^verbatim>\<open>mermaid\<close> and \<^verbatim>\<open>katex\<close>: with
  \<^verbatim>\<open>requestIdleCallback\<close> present, \<^verbatim>\<open>preloadInBackground(['html2pdf'])\<close> registers a
  callback, and when it has run \<^verbatim>\<open>lazyLoad\<close> has not been called and nothing is
  loading, whereas a call of \<^verbatim>\<open>loadHtml2Pdf\<close> starts a load.
\<close>

theorem preload_skips_html2pdf:
  "hasRequestIdleCallback (initial True False) \<and>
   requests (run (initial True False) [Preload [''html2pdf''], Idle 0]) = [] \<and>
   loading (getLoadingStatus (run (initial True False) [Preload [''html2pdf''], Idle 0])) = [] \<and>
   loaded (getLoadingStatus (run (initial True False) [Preload [''html2pdf''], Idle 0])) = [] \<and>
   idleCallbacks (run (initial True False) [Preload [''html2pdf''], Idle 0]) = [] \<and>
   loading (getLoadingStatus (run (initial True False) [Call Html2Pdf])) = [''html2pdf'']"
  by code_simp

text \<open>
  C7, amended: when \<^verbatim>\<open>requestIdleCallback\<close> exists, \<^verbatim>\<open>preloadInBackground(modules)\<close>
  registers one callback with a timeout of 5000 and changes nothing else. When a
  registered callback runs, it is removed, and it does what calls of \<^verbatim>\<open>loadMermaid\<close> for
  every \<^verbatim>\<open>'mermaid'\<close> and of \<^verbatim>\<open>loadKaTeX\<close> for every \<^verbatim>\<open>'katex'\<close> among its modules, in
  their order, do; every other module name is skipped. Afterwards each of these two keys
  that is among the modules is loaded or loading.
\<close>

theorem preload_runs_mermaid_and_katex:
  "(hasRequestIdleCallback s \<longrightarrow>
      preloadInBackground modules s = s\<lparr>idleCallbacks := idleCallbacks s @ [(5000, modules)]\<rparr>) \<and>
   (i < length (idleCallbacks s) \<and> snd (idleCallbacks s ! i) = modules \<longrightarrow>
      runIdleCallback i s =
        run (s\<lparr>idleCallbacks := remove_nth i (idleCallbacks s)\<rparr>)
          (map Call (preloadTargets modules)) \<and>
      idleCallbacks (runIdleCallback i s) = remove_nth i (idleCallbacks s) \<and>
      (\<forall>k\<in>set modules. k = ''mermaid'' \<or> k = ''katex'' \<longrightarrow>
         k \<in> set (loaded (getLoadingStatus (runIdleCallback i s))) \<union>
             set (loading (getLoadingStatus (runIdleCallback i s)))))"
proof (intro conjI impI)
  assume "hasRequestIdleCallback s"
  then show "preloadInBackground modules s =
      s\<lparr>idleCallbacks := idleCallbacks s @ [(5000, modules)]\<rparr>"
    by (simp add: preloadInBackground_def)
next
  assume a: "i < length (idleCallbacks s) \<and> snd (idleCallbacks s ! i) = modules"
  let ?t = "s\<lparr>idleCallbacks := remove_nth i (idleCallbacks s)\<rparr>"
  have r: "runIdleCallback i s = fold preloadCase modules ?t"
    using a by (simp add: runIdleCallback_def idleCallbackBody_def)
  show "runIdleCallback i s = run ?t (map Call (preloadTargets modules))"
    unfolding r run_def by (rule fold_preloadCase_calls)
  show "idleCallbacks (runIdleCallback i s) = remove_nth i (idleCallbacks s)"
    unfolding r by (simp add: idleCallbacks_fold_preloadCase)
  show "\<forall>k\<in>set modules. k = ''mermaid'' \<or> k = ''katex'' \<longrightarrow>
         k \<in> set (loaded (getLoadingStatus (runIdleCallback i s))) \<union>
             set (loading (getLoadingStatus (runIdleCallback i s)))"
    unfolding r present_status[symmetric] by (auto intro: present_after_fold)
qed

theorem preload_runs_mermaid_and_katex_witness:
  "hasRequestIdleCallback
     (run (initial True False) [Preload [''mermaid'', ''docx'', ''katex'']]) \<and>
   idleCallbacks (run (initial True False) [Preload [''mermaid'', ''docx'', ''katex'']]) =
     [(5000, [''mermaid'', ''docx'', ''katex''])] \<and>
   runIdleCallback 0 (run (initial True False) [Preload [''mermaid'', ''docx'', ''katex'']]) =
     run (initial True False) [Call Mermaid, Call KaTeX] \<and>
   ''katex'' \<in>
     set (loaded (getLoadingStatus (runIdleCallback 0
       (run (initial True False) [Preload [''mermaid'', ''docx'', ''katex'']])))) \<union>
     set (loading (getLoadingStatus (runIdleCallback 0
       (run (initial True False) [Preload [''mermaid'', ''docx'', ''katex'']]))))"
proof -
  let ?mods = "[''mermaid'', ''docx'', ''katex'']"
  let ?s = "run (initial True False) [Preload ?mods]"
  have h1: "hasRequestIdleCallback ?s" by code_simp
  have h2: "idleCallbacks ?s = [(5000, ?mods)]" by code_simp
  then have h3: "0 < length (idleCallbacks ?s) \<and> snd (idleCallbacks ?s ! 0) = ?mods" by simp
  have e1: "?s\<lparr>idleCallbacks := remove_nth 0 (idleCallbacks ?s)\<rparr> = initial True False"
    by code_simp
  have e2: "map Call (preloadTargets ?mods) = [Call Mermaid, Call KaTeX]" by simp
  note t = preload_runs_mermaid_and_katex[where s = ?s and modules = ?mods and i = 0]
  from t h3 have "runIdleCallback 0 ?s =
      run (?s\<lparr>idleCallbacks := remove_nth 0 (idleCallbacks ?s)\<rparr>) (map Call (preloadTargets ?mods))"
    by blast
  then have 1: "runIdleCallback 0 ?s = run (initial True False) [Call Mermaid, Call KaTeX]"
    unfolding e1 e2 .
  from t h3 have "\<forall>k\<in>set ?mods. k = ''mermaid'' \<or> k = ''katex'' \<longrightarrow>
      k \<in> set (loaded (getLoadingStatus (runIdleCallback 0 ?s))) \<union>
          set (loading (getLoadingStatus (runIdleCallback 0 ?s)))" by blast
  then have 2: "''katex'' \<in> set (loaded (getLoadingStatus (runIdleCallback 0 ?s))) \<union>
          set (loading (getLoadingStatus (runIdleCallback 0 ?s)))" by simp
  show ?thesis using h1 h2 1 2 by blast
qed

end
